theory Spec2Isabelle
  imports Complex_Main "HOL-Library.Word"
begin

section \<open>The AudioRecorder class (lib/audioRecorder.ts)\<close>

text \<open>
  An audio blob is its sequence of bytes; \<open>Blob.size\<close> is the length of that sequence and
  \<open>new Blob(parts)\<close> is the concatenation of the parts. Platform objects (media stream,
  audio context, analyser node, timers) are opaque handles. JavaScript numbers are modelled
  as reals: the only arithmetic on them is \<open>silenceThreshold + 5\<close>,
  \<open>silenceDuration / 100\<close> under \<open>Math.ceil\<close>, and comparisons.
\<close>

type_synonym blob = "8 word list"
type_synonym handle = nat

datatype recorder_state = Inactive | Recording | Paused

datatype error = MicrophoneError | InvalidStateError

text \<open>Calls the recorder makes on the platform to give a resource back.\<close>

datatype release =
    ClearInterval handle
  | ClearTimeout handle
  | MediaRecorderStop
  | TracksStop handle
  | AudioContextClose handle

text \<open>Callbacks the recorder invokes on its owner.\<close>

datatype emit = VolumeChange real | SilenceDetected | AudioData blob

text \<open>
  The fields of the class. A callback field holds whether a callback is registered
  (\<open>False\<close> is \<open>null\<close>); \<open>mediaRecorder\<close> holds the \<open>state\<close> attribute of the
  MediaRecorder object, when there is one.
\<close>

record recorder =
  mediaRecorder :: "recorder_state option"
  audioChunks :: "blob list"
  stream :: "handle option"
  silenceTimeout :: "handle option"
  audioContext :: "handle option"
  analyser :: "handle option"
  silenceThreshold :: real
  silenceDuration :: real
  onSilenceDetected :: bool
  onAudioData :: bool
  onVolumeChange :: bool
  isRecording :: bool
  volumeCheckInterval :: "handle option"
  hasSoundDetected :: bool
  silenceTriggered :: bool

text \<open>The options object of the constructor; \<open>None\<close> is an absent (undefined) property.\<close>

record recorder_options =
  opt_silenceThreshold :: "real option"
  opt_silenceDuration :: "real option"
  opt_onSilenceDetected :: bool
  opt_onAudioData :: bool
  opt_onVolumeChange :: bool

text \<open>
  \<open>x || d\<close> on an optional number: \<open>undefined\<close> and \<open>0\<close> are falsy (so is NaN, which
  the reals do not have).
\<close>

definition or_default :: "real option \<Rightarrow> real \<Rightarrow> real" where
  "or_default x d = (case x of None \<Rightarrow> d | Some v \<Rightarrow> if v = 0 then d else v)"

definition AudioRecorder :: "recorder_options \<Rightarrow> recorder" where
  "AudioRecorder options =
     \<lparr> mediaRecorder = None,
       audioChunks = [],
       stream = None,
       silenceTimeout = None,
       audioContext = None,
       analyser = None,
       silenceThreshold = or_default (opt_silenceThreshold options) 20,
       silenceDuration = or_default (opt_silenceDuration options) 1500,
       onSilenceDetected = opt_onSilenceDetected options,
       onAudioData = opt_onAudioData options,
       onVolumeChange = opt_onVolumeChange options,
       isRecording = False,
       volumeCheckInterval = None,
       hasSoundDetected = False,
       silenceTriggered = False \<rparr>"

text \<open>
  The variables captured by the interval callback of \<open>startVolumeMonitoring\<close>: two
  mutable locals and two constants computed once when monitoring starts.
\<close>

record monitor =
  consecutiveSilenceChecks :: nat
  maxVolumeDetected :: real
  silenceChecksNeeded :: int
  soundThreshold :: real

definition checkInterval :: real where
  "checkInterval = 100"

text \<open>\<open>startVolumeMonitoring\<close>; the argument \<open>h\<close> is the id \<open>setInterval\<close> returns.\<close>

definition startVolumeMonitoring :: "handle \<Rightarrow> recorder \<Rightarrow> monitor \<times> recorder" where
  "startVolumeMonitoring h r =
     (\<lparr> consecutiveSilenceChecks = 0,
        maxVolumeDetected = 0,
        silenceChecksNeeded = \<lceil>silenceDuration r / checkInterval\<rceil>,
        soundThreshold = silenceThreshold r + 5 \<rparr>,
      r\<lparr>volumeCheckInterval := Some h\<rparr>)"

text \<open>
  What the platform answers during \<open>startRecording\<close>: the stream \<open>getUserMedia\<close>
  resolves to (or a rejection), the audio context and analyser (or a throwing
  constructor), whether the MediaRecorder constructor accepts the mime type, and the
  interval id.
\<close>

record platform =
  getUserMedia :: "handle option"
  newAudioContext :: "(handle \<times> handle) option"
  newMediaRecorder :: bool
  setInterval :: handle

text \<open>
  \<open>startRecording\<close>. Every exception inside the \<open>try\<close> is rethrown as
  "Failed to access microphone"; the fields assigned before the failure keep their values.
\<close>

definition startRecording ::
  "platform \<Rightarrow> recorder \<Rightarrow> (error \<times> recorder) + (monitor \<times> recorder)" where
  "startRecording p r =
     (case getUserMedia p of
        None \<Rightarrow> Inl (MicrophoneError, r)
      | Some s \<Rightarrow>
          let r1 = r\<lparr>stream := Some s\<rparr> in
          (case newAudioContext p of
             None \<Rightarrow> Inl (MicrophoneError, r1)
           | Some (c, a) \<Rightarrow>
               let r2 = r1\<lparr>audioContext := Some c, analyser := Some a\<rparr> in
               if \<not> newMediaRecorder p then Inl (MicrophoneError, r2)
               else
                 let r3 = r2\<lparr>mediaRecorder := Some Inactive\<rparr>;
                     r4 = r3\<lparr>audioChunks := [], isRecording := True,
                             hasSoundDetected := False, silenceTriggered := False\<rparr>;
                     r5 = r4\<lparr>mediaRecorder := Some Recording\<rparr>
                 in Inr (startVolumeMonitoring (setInterval p) r5)))"

text \<open>
  \<open>MediaRecorder.stop()\<close> raises InvalidStateError on an inactive recorder; otherwise
  the recorder becomes inactive (its \<open>stop\<close> event is delivered later).
\<close>

definition mediaRecorder_stop :: "recorder_state \<Rightarrow> error + recorder_state" where
  "mediaRecorder_stop st = (if st = Inactive then Inl InvalidStateError else Inr Inactive)"

text \<open>
  \<open>stopRecording\<close>, returning the new fields and the release calls made, in order.
\<close>

definition stopRecording :: "recorder \<Rightarrow> error + (recorder \<times> release list)" where
  "stopRecording r =
     (let r1 = r\<lparr>isRecording := False\<rparr>;
          (r2, o2) = (case volumeCheckInterval r1 of
                        Some h \<Rightarrow> (r1\<lparr>volumeCheckInterval := None\<rparr>, [ClearInterval h])
                      | None \<Rightarrow> (r1, []));
          (r3, o3) = (case silenceTimeout r2 of
                        Some h \<Rightarrow> (r2\<lparr>silenceTimeout := None\<rparr>, o2 @ [ClearTimeout h])
                      | None \<Rightarrow> (r2, o2))
      in case (case mediaRecorder r3 of
                 None \<Rightarrow> Inr (r3, o3)
               | Some st \<Rightarrow>
                   if st \<noteq> Inactive
                   then (case mediaRecorder_stop st of
                           Inl e \<Rightarrow> Inl e
                         | Inr st' \<Rightarrow> Inr (r3\<lparr>mediaRecorder := Some st'\<rparr>,
                                           o3 @ [MediaRecorderStop]))
                   else Inr (r3, o3)) of
           Inl e \<Rightarrow> Inl e
         | Inr (r4, o4) \<Rightarrow>
             let (r5, o5) = (case stream r4 of
                               Some h \<Rightarrow> (r4\<lparr>stream := None\<rparr>, o4 @ [TracksStop h])
                             | None \<Rightarrow> (r4, o4));
                 (r6, o6) = (case audioContext r5 of
                               Some h \<Rightarrow> (r5\<lparr>audioContext := None\<rparr>, o5 @ [AudioContextClose h])
                             | None \<Rightarrow> (r5, o5))
             in Inr (r6\<lparr>analyser := None\<rparr>, o6))"

text \<open>
  The body of the interval callback, for the value \<open>volume\<close> that \<open>getVolume\<close>
  returned. The \<open>onSilenceDetected\<close> callback runs between the assignment of
  \<open>silenceTriggered\<close> and the reset of the counter; what it does to the recorder (it may
  call \<open>stopRecording\<close>) is a separate event of the session below, which touches neither.
\<close>

definition volumeCheck :: "real \<Rightarrow> monitor \<times> recorder \<Rightarrow> (monitor \<times> recorder) \<times> emit list" where
  "volumeCheck volume s =
     (case s of (m, r) \<Rightarrow>
        if \<not> isRecording r then (s, [])
        else
          let m1 = (if volume > maxVolumeDetected m then m\<lparr>maxVolumeDetected := volume\<rparr> else m);
              out = (if onVolumeChange r then [VolumeChange volume] else []);
              (m2, r2) = (if volume \<ge> soundThreshold m1
                          then (m1\<lparr>consecutiveSilenceChecks := 0\<rparr>, r\<lparr>hasSoundDetected := True\<rparr>)
                          else (m1, r))
          in
            if \<not> hasSoundDetected r2 then ((m2, r2), out)
            else if volume < silenceThreshold r2 then
              let m3 = m2\<lparr>consecutiveSilenceChecks := consecutiveSilenceChecks m2 + 1\<rparr> in
              if int (consecutiveSilenceChecks m3) \<ge> silenceChecksNeeded m3 \<and> \<not> silenceTriggered r2
              then
                if onSilenceDetected r2 \<and> length (audioChunks r2) > 0
                then ((m3\<lparr>consecutiveSilenceChecks := 0\<rparr>, r2\<lparr>silenceTriggered := True\<rparr>),
                      out @ [SilenceDetected])
                else ((m3\<lparr>consecutiveSilenceChecks := 0\<rparr>, r2), out)
              else ((m3, r2), out)
            else
              ((if consecutiveSilenceChecks m2 > 0 then m2\<lparr>consecutiveSilenceChecks := 0\<rparr> else m2,
                r2), out))"

text \<open>The \<open>ondataavailable\<close> and \<open>onstop\<close> handlers installed by \<open>startRecording\<close>.\<close>

definition ondataavailable :: "blob \<Rightarrow> recorder \<Rightarrow> recorder" where
  "ondataavailable d r = (if length d > 0 then r\<lparr>audioChunks := audioChunks r @ [d]\<rparr> else r)"

definition onstop :: "recorder \<Rightarrow> recorder \<times> emit list" where
  "onstop r =
     (let audioBlob = concat (audioChunks r)
      in (r\<lparr>audioChunks := []\<rparr>,
          if onAudioData r \<and> length audioBlob > 0 then [AudioData audioBlob] else []))"

text \<open>
  \<open>getCurrentAudioBlob\<close>, returning the recorder as well, so that what the call leaves
  behind can be compared with what it found.
\<close>

definition getCurrentAudioBlob :: "recorder \<Rightarrow> blob option \<times> recorder" where
  "getCurrentAudioBlob r =
     (if length (audioChunks r) = 0 then (None, r) else (Some (concat (audioChunks r)), r))"

definition isCurrentlyRecording :: "recorder \<Rightarrow> bool" where
  "isCurrentlyRecording r = isRecording r"

subsection \<open>One recording session\<close>

text \<open>
  Everything that can happen to a recorder between one \<open>startRecording\<close> and the next,
  on the single event-loop timeline: the interval fires with a volume sample, the media
  recorder delivers a chunk, somebody calls \<open>stopRecording\<close>, the media recorder's
  \<open>stop\<close> event arrives.
\<close>

datatype event = Sample real | DataAvailable blob | Stop | Stopped

definition step :: "event \<Rightarrow> monitor \<times> recorder \<Rightarrow> (monitor \<times> recorder) \<times> emit list" where
  "step e s =
     (case e of
        Sample v \<Rightarrow> volumeCheck v s
      | DataAvailable d \<Rightarrow> ((fst s, ondataavailable d (snd s)), [])
      | Stop \<Rightarrow> (case stopRecording (snd s) of
                   Inl _ \<Rightarrow> (s, [])
                 | Inr (r', _) \<Rightarrow> ((fst s, r'), []))
      | Stopped \<Rightarrow> (let (r', out) = onstop (snd s) in ((fst s, r'), out)))"

fun run :: "event list \<Rightarrow> monitor \<times> recorder \<Rightarrow> (monitor \<times> recorder) \<times> emit list" where
  "run [] s = (s, [])"
| "run (e # es) s =
     (let (s1, out1) = step e s; (s2, out2) = run es s1 in (s2, out1 @ out2))"

text \<open>The volume samples among the events, and the number of silence callbacks made.\<close>

fun samples :: "event list \<Rightarrow> real list" where
  "samples [] = []"
| "samples (Sample v # es) = v # samples es"
| "samples (e # es) = samples es"

definition signals :: "emit list \<Rightarrow> nat" where
  "signals out = length (filter (\<lambda>x. x = SilenceDetected) out)"

section \<open>Strings\<close>

text \<open>
  Transcripts and typed text are strings of code units below 256 (the Latin-1 range), one
  \<open>char\<close> each. On that range \<open>String.prototype.trim\<close> strips tab, line feed,
  vertical tab, form feed, carriage return, space and no-break space, and
  \<open>toLowerCase\<close> maps A-Z and the capital letters 0xC0-0xDE (without the
  multiplication sign 0xD7) to the code unit 32 above.
\<close>

definition isWhiteSpace :: "char \<Rightarrow> bool" where
  "isWhiteSpace c =
     (let n = (of_char c :: nat) in (9 \<le> n \<and> n \<le> 13) \<or> n = 32 \<or> n = 160)"

definition trim :: "string \<Rightarrow> string" where
  "trim s = rev (dropWhile isWhiteSpace (rev (dropWhile isWhiteSpace s)))"

definition toLowerChar :: "char \<Rightarrow> char" where
  "toLowerChar c =
     (let n = (of_char c :: nat)
      in if (65 \<le> n \<and> n \<le> 90) \<or> (192 \<le> n \<and> n \<le> 222 \<and> n \<noteq> 215)
         then char_of (n + 32) else c)"

definition toLowerCase :: "string \<Rightarrow> string" where
  "toLowerCase s = map toLowerChar s"

text \<open>The class \<open>\w\<close> of a regular expression without flags: \<open>[A-Za-z0-9_]\<close>.\<close>

definition isWordChar :: "char \<Rightarrow> bool" where
  "isWordChar c =
     (let n = (of_char c :: nat)
      in (48 \<le> n \<and> n \<le> 57) \<or> (65 \<le> n \<and> n \<le> 90) \<or> n = 95 \<or> (97 \<le> n \<and> n \<le> 122))"

text \<open>
  The regular expression \<open>/\b(stop|exit|quit|end|goodbye)\b/\<close>. The assertion \<open>\b\<close>
  holds at position \<open>i\<close> when exactly one of the characters before and at \<open>i\<close> is a
  word character, the ends of the string counting as not one. \<open>String.prototype.match\<close>
  is truthy when the expression matches at some position with some alternative.
\<close>

definition wordAt :: "string \<Rightarrow> nat \<Rightarrow> bool" where
  "wordAt s i = (i < length s \<and> isWordChar (s ! i))"

definition boundary :: "string \<Rightarrow> nat \<Rightarrow> bool" where
  "boundary s i = ((0 < i \<and> wordAt s (i - 1)) \<noteq> wordAt s i)"

definition stopWords :: "string list" where
  "stopWords = [''stop'', ''exit'', ''quit'', ''end'', ''goodbye'']"

definition matchAt :: "string \<Rightarrow> nat \<Rightarrow> string \<Rightarrow> bool" where
  "matchAt s i w =
     (boundary s i \<and> take (length w) (drop i s) = w \<and> boundary s (i + length w))"

definition matchStop :: "string \<Rightarrow> bool" where
  "matchStop s = list_ex (\<lambda>i. list_ex (matchAt s i) stopWords) [0..<Suc (length s)]"

section \<open>The conversation component (components/VoiceChatDigitalTwin.tsx)\<close>

datatype VoiceState = Idle | Listening | Processing | Speaking

datatype role = User | Assistant

record ConversationMessage =
  role :: role
  content :: string
  timestamp :: string

text \<open>
  The fields of a TextToSpeech object that its methods and utterance handlers assign; the
  current utterance is its text.
\<close>

record tts =
  queue :: "string list"
  isSpeaking :: bool
  currentUtterance :: "string option"

text \<open>
  What the component does to the outside: requests to the two services, notifications,
  timers, the release calls of its recorder, the speech engine, the \<open>onConversationUpdate\<close>
  prop. The updater passed to \<open>setConversation\<close> calls that prop when React next
  renders, after the synchronous statements of the handler; the actions are in that order.
\<close>

datatype action =
    FetchStt blob
  | FetchLlm string string "ConversationMessage list"
  | ToastSuccess string
  | ToastError string
  | ClearListeningTimeout handle
  | Release release
  | SynthesisCancel
  | SynthesisSpeak string
  | OnConversationUpdate "ConversationMessage list"
  | RestartListeningAfter nat
  | FinishWithoutSpeechAfter nat
  | StartRecordingCall
  | SetListeningTimeout handle

text \<open>
  The component's state hooks that its handlers assign, and its refs. A state setter is
  modelled as an assignment.
\<close>

record orchestrator =
  voiceState :: VoiceState
  isActive :: bool
  conversation :: "ConversationMessage list"
  currentTranscript :: string
  textInput :: string
  audioRecorderRef :: "recorder option"
  ttsRef :: "tts option"
  isProcessingRef :: bool
  listeningTimeoutRef :: "handle option"
  hasDetectedSpeechRef :: bool

text \<open>
  A handler reads state hooks and props through its closure: the values of the render
  that created it. They are a parameter of every handler that reads one.
\<close>

record closure =
  c_voiceState :: VoiceState
  c_isActive :: bool
  c_conversation :: "ConversationMessage list"
  c_textInput :: string
  c_sessionId :: string
  c_onConversationUpdate :: bool
  c_ttsEnabled :: bool
  c_isMuted :: bool
  c_silenceThreshold :: real
  c_silenceDuration :: real

text \<open>A \<open>fetch\<close> followed by \<open>.json()\<close>: the promise rejects, or yields the body.\<close>

datatype 'a response = Rejected | Json 'a

record sttData =
  stt_success :: bool
  stt_text :: "string option"

record llmData =
  llm_success :: bool
  llm_response :: "string option"

text \<open>\<open>TextToSpeech.cancel\<close>.\<close>

definition cancel :: "tts \<Rightarrow> tts \<times> action list" where
  "cancel t = (t\<lparr>queue := [], isSpeaking := False, currentUtterance := None\<rparr>, [SynthesisCancel])"

text \<open>
  Three statements that several handlers share: the block that clears the safety timer
  when \<open>listeningTimeoutRef.current\<close> is set (timer ids are positive, so a stored id is
  truthy), \<open>audioRecorderRef.current?.stopRecording()\<close>, and
  \<open>ttsRef.current?.cancel()\<close>.
\<close>

definition clearListeningTimeout :: "orchestrator \<Rightarrow> orchestrator \<times> action list" where
  "clearListeningTimeout s =
     (case listeningTimeoutRef s of
        Some h \<Rightarrow> (s\<lparr>listeningTimeoutRef := None\<rparr>, [ClearListeningTimeout h])
      | None \<Rightarrow> (s, []))"

definition recorderStop :: "orchestrator \<Rightarrow> error + (orchestrator \<times> action list)" where
  "recorderStop s =
     (case audioRecorderRef s of
        None \<Rightarrow> Inr (s, [])
      | Some r \<Rightarrow>
          (case stopRecording r of
             Inl e \<Rightarrow> Inl e
           | Inr (r', rel) \<Rightarrow> Inr (s\<lparr>audioRecorderRef := Some r'\<rparr>, map Release rel)))"

definition ttsCancel :: "orchestrator \<Rightarrow> orchestrator \<times> action list" where
  "ttsCancel s =
     (case ttsRef s of
        None \<Rightarrow> (s, [])
      | Some t \<Rightarrow> (let (t', a) = cancel t in (s\<lparr>ttsRef := Some t'\<rparr>, a)))"

text \<open>
  \<open>handleStop\<close>. An exception leaves the function where it is raised, with the state
  and the actions reached so far.
\<close>

definition handleStop ::
  "orchestrator \<Rightarrow> (error \<times> orchestrator \<times> action list) + (orchestrator \<times> action list)" where
  "handleStop s =
     (let s1 = s\<lparr>isActive := False, voiceState := Idle, isProcessingRef := False\<rparr>;
          (s2, a2) = clearListeningTimeout s1
      in case recorderStop s2 of
           Inl e \<Rightarrow> Inl (e, s2, a2)
         | Inr (s3, a3) \<Rightarrow>
             (let (s4, a4) = ttsCancel s3
              in Inr (s4, a2 @ a3 @ a4 @ [ToastSuccess ''Voice chat stopped''])))"

text \<open>The \<open>catch\<close> block of \<open>handleSilenceDetected\<close>.\<close>

definition processingFailed :: "closure \<Rightarrow> orchestrator \<Rightarrow> orchestrator \<times> action list" where
  "processingFailed c s =
     (s\<lparr>voiceState := Idle, isProcessingRef := False\<rparr>,
      ToastError ''Failed to process your message''
        # (if c_isActive c then [RestartListeningAfter 1000] else []))"

text \<open>\<open>audioRecorderRef.current?.getCurrentAudioBlob()\<close>.\<close>

definition currentAudioBlob :: "orchestrator \<Rightarrow> blob option \<times> orchestrator" where
  "currentAudioBlob s =
     (case audioRecorderRef s of
        None \<Rightarrow> (None, s)
      | Some r \<Rightarrow> (let (b, r') = getCurrentAudioBlob r in (b, s\<lparr>audioRecorderRef := Some r'\<rparr>)))"

text \<open>
  \<open>handleSilenceDetected\<close> up to its first \<open>await\<close>, the request to the
  transcription service.
\<close>

definition handleSilenceDetected :: "closure \<Rightarrow> orchestrator \<Rightarrow> orchestrator \<times> action list" where
  "handleSilenceDetected c s =
     (if isProcessingRef s then (s, [])
      else
        let (audioBlob, s0) = currentAudioBlob s
        in (case audioBlob of
              None \<Rightarrow> (s0, [])
            | Some b \<Rightarrow>
                if length b < 2000 then (s0, [])
                else
                  (let s1 = s0\<lparr>isProcessingRef := True, hasDetectedSpeechRef := False,
                               voiceState := Processing\<rparr>;
                       (s2, a2) = clearListeningTimeout s1
                   in (case recorderStop s2 of
                         Inl e \<Rightarrow> (let (s3, a3) = processingFailed c s2 in (s3, a2 @ a3))
                       | Inr (s3, a3) \<Rightarrow> (s3, a2 @ a3 @ [FetchStt b])))))"

text \<open>
  \<open>handleSilenceDetected\<close> from the answer of the transcription service up to its
  second \<open>await\<close>, the request to the response service; \<open>now\<close> is the timestamp of the
  user message.
\<close>

definition sttResponded ::
  "closure \<Rightarrow> string \<Rightarrow> sttData response \<Rightarrow> orchestrator \<Rightarrow> orchestrator \<times> action list" where
  "sttResponded c now resp s =
     (case resp of
        Rejected \<Rightarrow> processingFailed c s
      | Json d \<Rightarrow>
          (case stt_text d of
             None \<Rightarrow> processingFailed c s
           | Some t \<Rightarrow>
               if \<not> stt_success d \<or> t = [] then processingFailed c s
               else
                 let userMessage = trim t;
                     s1 = s\<lparr>currentTranscript := userMessage, textInput := userMessage\<rparr>
                 in
                   if matchStop (toLowerCase userMessage)
                   then (case handleStop s1 of
                           Inl (e, s2, a2) \<Rightarrow> (let (s3, a3) = processingFailed c s2 in (s3, a2 @ a3))
                         | Inr (s2, a2) \<Rightarrow> (s2, a2))
                   else
                     let userMsg = \<lparr>role = User, content = userMessage, timestamp = now\<rparr>;
                         updated = conversation s1 @ [userMsg];
                         s2 = s1\<lparr>conversation := updated\<rparr>
                     in (s2, FetchLlm userMessage (c_sessionId c) (c_conversation c)
                             # (if c_onConversationUpdate c then [OnConversationUpdate updated] else []))))"

text \<open>The callback of the safety timer armed by \<open>startListening\<close>.\<close>

definition listeningTimeout :: "closure \<Rightarrow> orchestrator \<Rightarrow> orchestrator \<times> action list" where
  "listeningTimeout c s =
     (if c_voiceState c = Listening \<and> \<not> isProcessingRef s then handleSilenceDetected c s
      else (s, []))"

text \<open>
  \<open>handleTextSubmit\<close> up to its \<open>await\<close>, the request to the response service
  (\<open>e.preventDefault()\<close> acts on the DOM event only).
\<close>

definition handleTextSubmit ::
  "closure \<Rightarrow> string \<Rightarrow> orchestrator \<Rightarrow> orchestrator \<times> action list" where
  "handleTextSubmit c now s =
     (if trim (c_textInput c) = [] \<or> isProcessingRef s then (s, [])
      else
        let userMessage = trim (c_textInput c);
            s1 = s\<lparr>textInput := [], currentTranscript := userMessage\<rparr>;
            s2 = s1\<lparr>isProcessingRef := True, voiceState := Processing\<rparr>;
            userMsg = \<lparr>role = User, content = userMessage, timestamp = now\<rparr>;
            updated = conversation s2 @ [userMsg];
            s3 = s2\<lparr>conversation := updated\<rparr>
        in (s3, FetchLlm userMessage (c_sessionId c) (c_conversation c)
                # (if c_onConversationUpdate c then [OnConversationUpdate updated] else [])))"

subsection \<open>The rest of a processing cycle\<close>

text \<open>\<open>TextToSpeech.speak\<close> and \<open>processQueue\<close>.\<close>

definition speak :: "string \<Rightarrow> tts \<Rightarrow> tts \<times> action list" where
  "speak text t =
     (if text = [] \<or> length (trim text) = 0 then (t, [])
      else
        let (t1, a1) = cancel t
        in (t1\<lparr>currentUtterance := Some text\<rparr>, a1 @ [SynthesisSpeak text]))"

definition processQueue :: "tts \<Rightarrow> tts \<times> action list" where
  "processQueue t =
     (if length (queue t) > 0 \<and> \<not> isSpeaking t
      then (case queue t of
              [] \<Rightarrow> (t, [])
            | nextText # rest \<Rightarrow>
                (let t1 = t\<lparr>queue := rest\<rparr>
                 in if nextText \<noteq> [] then speak nextText t1 else (t1, [])))
      else (t, []))"

text \<open>\<open>ttsRef.current?.speak(text)\<close>.\<close>

definition ttsSpeak :: "string \<Rightarrow> orchestrator \<Rightarrow> orchestrator \<times> action list" where
  "ttsSpeak text s =
     (case ttsRef s of
        None \<Rightarrow> (s, [])
      | Some t \<Rightarrow> (let (t', a) = speak text t in (s\<lparr>ttsRef := Some t'\<rparr>, a)))"

text \<open>
  \<open>startListening\<close>; \<open>h\<close> is the id of the safety timer it arms. The call of
  \<open>startRecording\<close> runs up to its first \<open>await\<close>, the request for the microphone.
\<close>

definition startListening :: "closure \<Rightarrow> handle \<Rightarrow> orchestrator \<Rightarrow> orchestrator \<times> action list" where
  "startListening c h s =
     (if (case audioRecorderRef s of None \<Rightarrow> False | Some r \<Rightarrow> isCurrentlyRecording r)
      then (s, [])
      else if isProcessingRef s then (s, [])
      else
        let s1 = s\<lparr>hasDetectedSpeechRef := False\<rparr>;
            s2 = s1\<lparr>audioRecorderRef :=
                      Some (AudioRecorder
                        \<lparr> opt_silenceThreshold = Some (c_silenceThreshold c),
                          opt_silenceDuration = Some (c_silenceDuration c),
                          opt_onSilenceDetected = True,
                          opt_onAudioData = False,
                          opt_onVolumeChange = True \<rparr>)\<rparr>;
            s3 = s2\<lparr>listeningTimeoutRef := Some h\<rparr>
        in (s3, [StartRecordingCall, SetListeningTimeout h]))"

text \<open>
  \<open>handleSilenceDetected\<close> from the answer of the response service to its end; \<open>now\<close>
  is the timestamp of the assistant message.
\<close>

definition llmResponded ::
  "closure \<Rightarrow> string \<Rightarrow> llmData response \<Rightarrow> orchestrator \<Rightarrow> orchestrator \<times> action list" where
  "llmResponded c now resp s =
     (case resp of
        Rejected \<Rightarrow> processingFailed c s
      | Json d \<Rightarrow>
          (case llm_response d of
             None \<Rightarrow> processingFailed c s
           | Some assistantMessage \<Rightarrow>
               if \<not> llm_success d \<or> assistantMessage = [] then processingFailed c s
               else
                 let assistantMsg = \<lparr>role = Assistant, content = assistantMessage, timestamp = now\<rparr>;
                     updated = conversation s @ [assistantMsg];
                     s1 = s\<lparr>conversation := updated\<rparr>;
                     (s2, a2) = (if c_ttsEnabled c \<and> \<not> c_isMuted c
                                 then ttsSpeak assistantMessage s1
                                 else (s1, [FinishWithoutSpeechAfter 500]));
                     s3 = s2\<lparr>currentTranscript := [], textInput := []\<rparr>
                 in (s3, a2 @ (if c_onConversationUpdate c then [OnConversationUpdate updated] else []))))"

text \<open>
  The callback of the timer that \<open>llmResponded\<close> sets when speech is disabled or muted;
  \<open>h\<close> is the id of the safety timer, should \<open>startListening\<close> arm one.
\<close>

definition finishWithoutSpeech :: "closure \<Rightarrow> handle \<Rightarrow> orchestrator \<Rightarrow> orchestrator \<times> action list" where
  "finishWithoutSpeech c h s =
     (let (s1, a1) = (if c_isActive c then startListening c h (s\<lparr>voiceState := Listening\<rparr>)
                      else (s\<lparr>voiceState := Idle\<rparr>, []))
      in (s1\<lparr>isProcessingRef := False\<rparr>, a1))"

text \<open>
  The callback of the timers that the \<open>catch\<close> block and the \<open>onEnd\<close> callback set to
  start listening again.
\<close>

definition restartListening :: "closure \<Rightarrow> handle \<Rightarrow> orchestrator \<Rightarrow> orchestrator \<times> action list" where
  "restartListening c h s = startListening c h (s\<lparr>voiceState := Listening\<rparr>)"

text \<open>
  \<open>handleTextSubmit\<close> from the answer of the response service to its end, with its own
  \<open>catch\<close> block.
\<close>

definition textFailed :: "orchestrator \<Rightarrow> orchestrator \<times> action list" where
  "textFailed s =
     (s\<lparr>voiceState := Idle, isProcessingRef := False\<rparr>,
      [ToastError ''Failed to process your message''])"

definition textLlmResponded ::
  "closure \<Rightarrow> string \<Rightarrow> llmData response \<Rightarrow> orchestrator \<Rightarrow> orchestrator \<times> action list" where
  "textLlmResponded c now resp s =
     (case resp of
        Rejected \<Rightarrow> textFailed s
      | Json d \<Rightarrow>
          (case llm_response d of
             None \<Rightarrow> textFailed s
           | Some assistantMessage \<Rightarrow>
               if \<not> llm_success d \<or> assistantMessage = [] then textFailed s
               else
                 let assistantMsg = \<lparr>role = Assistant, content = assistantMessage, timestamp = now\<rparr>;
                     updated = conversation s @ [assistantMsg];
                     s1 = s\<lparr>conversation := updated\<rparr>;
                     (s2, a2) = (if c_ttsEnabled c \<and> \<not> c_isMuted c
                                 then ttsSpeak assistantMessage s1
                                 else (s1\<lparr>voiceState := Idle, isProcessingRef := False\<rparr>, []));
                     s3 = s2\<lparr>currentTranscript := []\<rparr>
                 in (s3, a2 @ (if c_onConversationUpdate c then [OnConversationUpdate updated] else []))))"

text \<open>
  The handlers \<open>speak\<close> installs on an utterance, each with the callback the component
  registered on its TextToSpeech object (\<open>onStart\<close>, \<open>onEnd\<close>, \<open>onError\<close>).
\<close>

definition utteranceStarted :: "orchestrator \<Rightarrow> orchestrator \<times> action list" where
  "utteranceStarted s =
     (case ttsRef s of
        None \<Rightarrow> (s, [])
      | Some t \<Rightarrow> (s\<lparr>ttsRef := Some (t\<lparr>isSpeaking := True\<rparr>), voiceState := Speaking\<rparr>, []))"

definition utteranceEnded :: "closure \<Rightarrow> orchestrator \<Rightarrow> orchestrator \<times> action list" where
  "utteranceEnded c s =
     (case ttsRef s of
        None \<Rightarrow> (s, [])
      | Some t \<Rightarrow>
          let t1 = t\<lparr>isSpeaking := False, currentUtterance := None\<rparr>;
              s1 = s\<lparr>isProcessingRef := False\<rparr>;
              (s2, a2) = (if c_isActive c then (s1, [RestartListeningAfter 500])
                          else (s1\<lparr>voiceState := Idle\<rparr>, []));
              (t2, a3) = processQueue t1
          in (s2\<lparr>ttsRef := Some t2\<rparr>, a2 @ a3))"

definition utteranceFailed :: "orchestrator \<Rightarrow> orchestrator \<times> action list" where
  "utteranceFailed s =
     (case ttsRef s of
        None \<Rightarrow> (s, [])
      | Some t \<Rightarrow>
          let t1 = t\<lparr>isSpeaking := False, currentUtterance := None\<rparr>;
              s1 = s\<lparr>isProcessingRef := False, voiceState := Idle\<rparr>;
              (t2, a3) = processQueue t1
          in (s1\<lparr>ttsRef := Some t2\<rparr>, ToastError ''Speech synthesis error'' # a3))"

subsection \<open>Triggers of a processing cycle\<close>

datatype trigger = SilenceCallback closure | SafetyTimer closure | TextSubmit closure string

definition fire :: "trigger \<Rightarrow> orchestrator \<Rightarrow> orchestrator \<times> action list" where
  "fire t s =
     (case t of
        SilenceCallback c \<Rightarrow> handleSilenceDetected c s
      | SafetyTimer c \<Rightarrow> listeningTimeout c s
      | TextSubmit c now \<Rightarrow> handleTextSubmit c now s)"

text \<open>
  Firing triggers one after the other on the event loop, counting the transitions into
  a processing cycle (the guard flag goes from clear to set) and collecting the actions.
\<close>

fun fire_all :: "trigger list \<Rightarrow> orchestrator \<Rightarrow> orchestrator \<times> nat \<times> action list" where
  "fire_all [] s = (s, 0, [])"
| "fire_all (t # ts) s =
     (let (s1, a1) = fire t s;
          k = (if \<not> isProcessingRef s \<and> isProcessingRef s1 then 1 else 0);
          (s2, n, a2) = fire_all ts s1
      in (s2, k + n, a1 @ a2))"

text \<open>The release calls among the actions.\<close>

definition releases :: "action list \<Rightarrow> action list" where
  "releases as = filter (\<lambda>a. case a of ClearListeningTimeout _ \<Rightarrow> True | Release _ \<Rightarrow> True | _ \<Rightarrow> False) as"

text \<open>The requests to the two services among the actions.\<close>

definition requests :: "action list \<Rightarrow> action list" where
  "requests as =
     filter (\<lambda>a. case a of FetchStt _ \<Rightarrow> True | FetchLlm _ _ _ \<Rightarrow> True | _ \<Rightarrow> False) as"

subsection \<open>The timeline of the component\<close>

text \<open>
  What is outstanding on the event loop on behalf of a processing cycle: the requests sent
  and not yet answered, each with the continuation that awaits the answer, and the timers
  set by \<open>llmResponded\<close> and not yet fired. The utterance handed to the speech engine
  and not yet ended is \<open>currentUtterance\<close> of the TextToSpeech object.
\<close>

datatype request = SttRequest | LlmRequestVoice | LlmRequestText

record world =
  component :: orchestrator
  awaiting :: "request list"
  finishTimers :: nat

text \<open>
  The requests among the actions of a handler; \<open>k\<close> is the continuation of that handler
  that awaits the response service.
\<close>

definition requestsOf :: "request \<Rightarrow> action list \<Rightarrow> request list" where
  "requestsOf k as =
     concat (map (\<lambda>a. case a of FetchStt _ \<Rightarrow> [SttRequest] | FetchLlm _ _ _ \<Rightarrow> [k] | _ \<Rightarrow> []) as)"

definition timersOf :: "action list \<Rightarrow> nat" where
  "timersOf as = length (filter (\<lambda>a. case a of FinishWithoutSpeechAfter _ \<Rightarrow> True | _ \<Rightarrow> False) as)"

definition speaking :: "orchestrator \<Rightarrow> bool" where
  "speaking s = (case ttsRef s of None \<Rightarrow> False | Some t \<Rightarrow> currentUtterance t \<noteq> None)"

text \<open>
  The occurrences on the timeline: a trigger; an answer of a service, for a request that is
  awaited; an event of the utterance that is current; a timer that was set; a stop request
  (the stop button).
\<close>

datatype occurrence =
    Trigger trigger
  | SttAnswer closure string "sttData response"
  | LlmAnswerVoice closure string "llmData response"
  | LlmAnswerText closure string "llmData response"
  | SpeechStart
  | SpeechEnd closure
  | SpeechError
  | FinishTimer closure handle
  | RestartTimer closure handle
  | StopRequest

definition occur :: "occurrence \<Rightarrow> world \<Rightarrow> world" where
  "occur e w =
     (case e of
        Trigger t \<Rightarrow>
          (let (s, as) = fire t (component w)
           in w\<lparr>component := s, awaiting := awaiting w @ requestsOf LlmRequestText as\<rparr>)
      | SttAnswer c now resp \<Rightarrow>
          if SttRequest \<in> set (awaiting w)
          then (let (s, as) = sttResponded c now resp (component w)
                in w\<lparr>component := s,
                     awaiting := remove1 SttRequest (awaiting w) @ requestsOf LlmRequestVoice as\<rparr>)
          else w
      | LlmAnswerVoice c now resp \<Rightarrow>
          if LlmRequestVoice \<in> set (awaiting w)
          then (let (s, as) = llmResponded c now resp (component w)
                in w\<lparr>component := s, awaiting := remove1 LlmRequestVoice (awaiting w),
                     finishTimers := finishTimers w + timersOf as\<rparr>)
          else w
      | LlmAnswerText c now resp \<Rightarrow>
          if LlmRequestText \<in> set (awaiting w)
          then (let (s, as) = textLlmResponded c now resp (component w)
                in w\<lparr>component := s, awaiting := remove1 LlmRequestText (awaiting w)\<rparr>)
          else w
      | SpeechStart \<Rightarrow>
          if speaking (component w) then w\<lparr>component := fst (utteranceStarted (component w))\<rparr> else w
      | SpeechEnd c \<Rightarrow>
          if speaking (component w) then w\<lparr>component := fst (utteranceEnded c (component w))\<rparr> else w
      | SpeechError \<Rightarrow>
          if speaking (component w) then w\<lparr>component := fst (utteranceFailed (component w))\<rparr> else w
      | FinishTimer c h \<Rightarrow>
          if 0 < finishTimers w
          then w\<lparr>component := fst (finishWithoutSpeech c h (component w)),
                 finishTimers := finishTimers w - 1\<rparr>
          else w
      | RestartTimer c h \<Rightarrow> w\<lparr>component := fst (restartListening c h (component w))\<rparr>
      | StopRequest \<Rightarrow>
          (case handleStop (component w) of
             Inl (e, s, as) \<Rightarrow> w\<lparr>component := s\<rparr>
           | Inr (s, as) \<Rightarrow> w\<lparr>component := s\<rparr>))"

fun timeline :: "occurrence list \<Rightarrow> world \<Rightarrow> world" where
  "timeline [] w = w"
| "timeline (e # es) w = timeline es (occur e w)"

text \<open>
  A processing cycle is in flight from the trigger that begins it until its last
  continuation has run: while a request of it is awaited, while the timer that ends it is
  set, while its utterance is current. \<open>inFlight\<close> counts what is outstanding.
  A world is settled when nothing is, and the queue of the TextToSpeech object is empty
  (the component never calls \<open>enqueue\<close>).
\<close>

definition inFlight :: "world \<Rightarrow> nat" where
  "inFlight w =
     length (awaiting w) + finishTimers w + (if speaking (component w) then 1 else 0)"

definition queueEmpty :: "orchestrator \<Rightarrow> bool" where
  "queueEmpty s = (case ttsRef s of None \<Rightarrow> True | Some t \<Rightarrow> queue t = [])"

definition settled :: "world \<Rightarrow> bool" where
  "settled w =
     (awaiting w = [] \<and> finishTimers w = 0 \<and> \<not> speaking (component w)
      \<and> queueEmpty (component w))"

definition hasStop :: "occurrence list \<Rightarrow> bool" where
  "hasStop es = list_ex (\<lambda>e. e = StopRequest) es"

text \<open>
  The invariant of a timeline without stop requests: at most one cycle is in flight, the
  guard flag is set while one is, and the queue of the TextToSpeech object is empty.
\<close>

definition covered :: "world \<Rightarrow> bool" where
  "covered w =
     (queueEmpty (component w) \<and> inFlight w \<le> 1
      \<and> (0 < inFlight w \<longrightarrow> isProcessingRef (component w)))"

subsection \<open>The stop phrase, in the words of the specification\<close>

text \<open>
  This definition follows the specification, not the source: a text contains a stop word
  when one of its whole words, compared without regard to case, is one of stop, exit, quit,
  end, goodbye. The words of a text are its maximal runs of the letters A-Z and a-z, digits
  and underscores:
  \<open>fields\<close> cuts the text at every other character, and \<open>wordsOf\<close> keeps the pieces
  that are not empty. It is compared with \<open>matchStop\<close>, the expression of the source,
  in \<open>matchStop_refines\<close>.
\<close>

fun fields :: "string \<Rightarrow> string list" where
  "fields [] = [[]]"
| "fields (c # cs) =
     (if isWordChar c
      then (case fields cs of [] \<Rightarrow> [[c]] | f # fs \<Rightarrow> (c # f) # fs)
      else [] # fields cs)"

definition wordsOf :: "string \<Rightarrow> string list" where
  "wordsOf t = filter (\<lambda>w. w \<noteq> []) (fields t)"

definition containsStopWord :: "string \<Rightarrow> bool" where
  "containsStopWord t = list_ex (\<lambda>w. toLowerCase w \<in> set stopWords) (wordsOf t)"

text \<open>The requests to the response service among the actions.\<close>

definition llmRequests :: "action list \<Rightarrow> action list" where
  "llmRequests as = filter (\<lambda>a. case a of FetchLlm _ _ _ \<Rightarrow> True | _ \<Rightarrow> False) as"

section \<open>Scenarios\<close>

text \<open>
  The session of Scenario A: a recorder constructed with threshold 20 and duration 1000 ms,
  started on a platform that grants every request. \<open>scenario_start\<close> is the state
  \<open>startRecording\<close> leaves; \<open>feed\<close> delivers one recorded chunk and then the
  volume samples, one interval tick each.
\<close>

definition scenario_options :: recorder_options where
  "scenario_options =
     \<lparr> opt_silenceThreshold = Some 20, opt_silenceDuration = Some 1000,
       opt_onSilenceDetected = True, opt_onAudioData = False, opt_onVolumeChange = False \<rparr>"

definition scenario_platform :: platform where
  "scenario_platform =
     \<lparr> getUserMedia = Some 1, newAudioContext = Some (2, 3), newMediaRecorder = True,
       setInterval = 4 \<rparr>"

definition scenario_start :: "monitor \<times> recorder" where
  "scenario_start =
     (\<lparr> consecutiveSilenceChecks = 0, maxVolumeDetected = 0,
        silenceChecksNeeded = 10, soundThreshold = 25 \<rparr>,
      \<lparr> mediaRecorder = Some Recording, audioChunks = [], stream = Some 1,
        silenceTimeout = None, audioContext = Some 2, analyser = Some 3,
        silenceThreshold = 20, silenceDuration = 1000,
        onSilenceDetected = True, onAudioData = False, onVolumeChange = False,
        isRecording = True, volumeCheckInterval = Some 4,
        hasSoundDetected = False, silenceTriggered = False \<rparr>)"

definition scenarioA :: "real list" where
  "scenarioA = [5, 5, 30, 30, 30, 5, 5, 5, 5, 5, 5, 5, 5]"

definition feed :: "real list \<Rightarrow> event list" where
  "feed vs = DataAvailable [1] # map Sample vs"

definition band_state :: "monitor \<times> recorder" where
  "band_state = fst (run (feed [30, 5, 5, 5]) scenario_start)"

text \<open>
  A component that is listening, its recorder holding one chunk of \<open>n\<close> bytes after the
  silence callback; the same component once a processing cycle has begun; three triggers of
  the three kinds; and the transcription of Scenario D.
\<close>

definition demo_closure :: closure where
  "demo_closure =
     \<lparr> c_voiceState = Listening, c_isActive = True, c_conversation = [],
       c_textInput = ''hello'', c_sessionId = ''session-1'', c_onConversationUpdate = False,
       c_ttsEnabled = True, c_isMuted = False, c_silenceThreshold = 20,
       c_silenceDuration = 1000 \<rparr>"

definition listening_state :: "nat \<Rightarrow> orchestrator" where
  "listening_state n =
     \<lparr> voiceState = Listening, isActive = True, conversation = [], currentTranscript = [],
       textInput = [],
       audioRecorderRef =
         Some ((snd scenario_start)\<lparr>audioChunks := [replicate n 0], hasSoundDetected := True,
                 silenceTriggered := True\<rparr>),
       ttsRef = Some \<lparr>queue = [], isSpeaking = False, currentUtterance = None\<rparr>,
       isProcessingRef = False, listeningTimeoutRef = Some 5, hasDetectedSpeechRef = True \<rparr>"

definition busy_state :: orchestrator where
  "busy_state = fst (handleSilenceDetected demo_closure (listening_state 3000))"

definition demo_triggers :: "trigger list" where
  "demo_triggers =
     [SilenceCallback demo_closure, SafetyTimer demo_closure, TextSubmit demo_closure ''12:00'']"

definition stop_reply :: sttData where
  "stop_reply = \<lparr>stt_success = True, stt_text = Some ''please stop now''\<rparr>"

text \<open>
  The listening component with nothing outstanding; a timeline with a stop request between
  two triggers; and a timeline without one, on which a voice cycle runs to the end of its
  speech and a text cycle begins.
\<close>

definition world0 :: world where
  "world0 = \<lparr>component = listening_state 3000, awaiting = [], finishTimers = 0\<rparr>"

definition stop_timeline :: "occurrence list" where
  "stop_timeline =
     [Trigger (SilenceCallback demo_closure), StopRequest,
      Trigger (TextSubmit demo_closure ''12:00'')]"

definition hello_reply :: sttData where
  "hello_reply = \<lparr>stt_success = True, stt_text = Some ''hello there''\<rparr>"

definition llm_reply :: llmData where
  "llm_reply = \<lparr>llm_success = True, llm_response = Some ''Hi, how can I help?''\<rparr>"

definition demo_timeline :: "occurrence list" where
  "demo_timeline =
     [Trigger (SilenceCallback demo_closure),
      Trigger (TextSubmit demo_closure ''12:00''),
      SttAnswer demo_closure ''12:00'' (Json hello_reply),
      Trigger (SafetyTimer demo_closure),
      LlmAnswerVoice demo_closure ''12:01'' (Json llm_reply),
      SpeechStart,
      SpeechEnd demo_closure,
      Trigger (TextSubmit demo_closure ''12:02'')]"

section \<open>Properties of the recorder\<close>

lemma stopRecording_total:
  "\<exists>r' out. stopRecording r = Inr (r', out)"
  by (auto simp: stopRecording_def mediaRecorder_stop_def Let_def split: option.splits prod.splits sum.splits)

lemma stopRecording_fields:
  "stopRecording r = Inr (r', out) \<Longrightarrow>
     hasSoundDetected r' = hasSoundDetected r \<and> silenceTriggered r' = silenceTriggered r \<and>
     silenceThreshold r' = silenceThreshold r \<and> audioChunks r' = audioChunks r \<and>
     onSilenceDetected r' = onSilenceDetected r \<and> \<not> isRecording r'"
  by (auto simp: stopRecording_def mediaRecorder_stop_def Let_def split: option.splits prod.splits sum.splits if_splits)

lemma stopRecording_stopped:
  "stopRecording r = Inr (r', out) \<Longrightarrow>
     \<not> isRecording r' \<and> volumeCheckInterval r' = None \<and> silenceTimeout r' = None \<and>
     mediaRecorder r' \<noteq> Some Recording \<and> mediaRecorder r' \<noteq> Some Paused \<and>
     stream r' = None \<and> audioContext r' = None \<and> analyser r' = None"
  by (auto simp: stopRecording_def mediaRecorder_stop_def Let_def split: option.splits prod.splits sum.splits if_splits)

lemma stopRecording_again:
  "\<not> isRecording r \<Longrightarrow> volumeCheckInterval r = None \<Longrightarrow> silenceTimeout r = None \<Longrightarrow>
   mediaRecorder r \<noteq> Some Recording \<Longrightarrow> mediaRecorder r \<noteq> Some Paused \<Longrightarrow>
   stream r = None \<Longrightarrow> audioContext r = None \<Longrightarrow> analyser r = None \<Longrightarrow>
   stopRecording r = Inr (r, [])"
  by (cases "mediaRecorder r"; cases "the (mediaRecorder r)")
     (auto simp: stopRecording_def mediaRecorder_stop_def Let_def)

lemma stopRecording_twice:
  "\<exists>r' out. stopRecording r = Inr (r', out) \<and> stopRecording r' = Inr (r', [])"
proof -
  obtain r' out where 1: "stopRecording r = Inr (r', out)" using stopRecording_total by blast
  from stopRecording_stopped[OF 1] have "stopRecording r' = Inr (r', [])"
    by (intro stopRecording_again) auto
  with 1 show ?thesis by blast
qed

lemma getCurrentAudioBlob_snd: "snd (getCurrentAudioBlob r) = r"
  by (simp add: getCurrentAudioBlob_def)

lemma volumeCheck_quiet:
  assumes "\<not> hasSoundDetected r" "v < soundThreshold m" "volumeCheck v (m, r) = ((m', r'), out)"
  shows "\<not> hasSoundDetected r' \<and> SilenceDetected \<notin> set out"
  using assms by (auto simp: volumeCheck_def Let_def split: if_splits)

lemma volumeCheck_consts:
  assumes "volumeCheck v (m, r) = ((m', r'), out)"
  shows "soundThreshold m' = soundThreshold m \<and> silenceChecksNeeded m' = silenceChecksNeeded m \<and>
         silenceThreshold r' = silenceThreshold r"
  using assms by (auto simp: volumeCheck_def Let_def split: if_splits)

lemma volumeCheck_loud:
  assumes "soundThreshold m \<le> v" "silenceThreshold r \<le> soundThreshold m"
  shows "SilenceDetected \<notin> set (snd (volumeCheck v (m, r)))"
  using assms by (auto simp: volumeCheck_def Let_def split: if_splits)

lemma volumeCheck_once:
  assumes "volumeCheck v (m, r) = ((m', r'), out)"
  shows "signals out + (if silenceTriggered r then 1 else 0) \<le> (if silenceTriggered r' then 1 else 0)"
  using assms by (auto simp: volumeCheck_def signals_def Let_def split: if_splits)

lemma step_consts:
  assumes "step e s = (s', out)"
  shows "soundThreshold (fst s') = soundThreshold (fst s) \<and>
         silenceChecksNeeded (fst s') = silenceChecksNeeded (fst s) \<and>
         silenceThreshold (snd s') = silenceThreshold (snd s)"
proof (cases e)
  case (Sample v)
  with assms show ?thesis
    using volumeCheck_consts[of v "fst s" "snd s" "fst s'" "snd s'" out] by (simp add: step_def)
next
  case (DataAvailable d)
  with assms show ?thesis by (auto simp: step_def ondataavailable_def split: if_splits)
next
  case Stop
  with assms show ?thesis using stopRecording_fields[of "snd s"]
    by (auto simp: step_def split: sum.splits)
next
  case Stopped
  with assms show ?thesis by (auto simp: step_def onstop_def Let_def)
qed

lemma step_quiet:
  assumes "\<not> hasSoundDetected (snd s)" "\<forall>v. e = Sample v \<longrightarrow> v < soundThreshold (fst s)"
     "step e s = (s', out)"
  shows "\<not> hasSoundDetected (snd s') \<and> SilenceDetected \<notin> set out"
proof (cases e)
  case (Sample v)
  with assms show ?thesis using volumeCheck_quiet[of "snd s" v "fst s" "fst s'" "snd s'" out]
    by (simp add: step_def)
next
  case (DataAvailable d)
  with assms show ?thesis by (auto simp: step_def ondataavailable_def split: if_splits)
next
  case Stop
  with assms show ?thesis using stopRecording_fields[of "snd s"]
    by (auto simp: step_def split: sum.splits)
next
  case Stopped
  with assms show ?thesis by (auto simp: step_def onstop_def Let_def)
qed

lemma step_once:
  assumes "step e s = (s', out)"
  shows "signals out + (if silenceTriggered (snd s) then 1 else 0)
           \<le> (if silenceTriggered (snd s') then 1 else 0)"
proof (cases e)
  case (Sample v)
  with assms show ?thesis using volumeCheck_once[of v "fst s" "snd s" "fst s'" "snd s'" out]
    by (simp add: step_def)
next
  case (DataAvailable d)
  with assms show ?thesis by (auto simp: step_def ondataavailable_def signals_def split: if_splits)
next
  case Stop
  with assms show ?thesis using stopRecording_fields[of "snd s"]
    by (auto simp: step_def signals_def split: sum.splits)
next
  case Stopped
  with assms show ?thesis by (auto simp: step_def onstop_def signals_def Let_def)
qed

lemma signals_append: "signals (xs @ ys) = signals xs + signals ys"
  by (simp add: signals_def)

lemma signals_0_iff: "signals out = 0 \<longleftrightarrow> SilenceDetected \<notin> set out"
  by (auto simp: signals_def filter_empty_conv)

lemma run_append:
  "run (es @ fs) s = (let (s1, o1) = run es s; (s2, o2) = run fs s1 in (s2, o1 @ o2))"
  by (induction es arbitrary: s) (auto simp: Let_def split: prod.splits)

lemma run_consts:
  "run es s = (s', out) \<Longrightarrow>
     soundThreshold (fst s') = soundThreshold (fst s) \<and>
     silenceChecksNeeded (fst s') = silenceChecksNeeded (fst s) \<and>
     silenceThreshold (snd s') = silenceThreshold (snd s)"
proof (induction es arbitrary: s s' out)
  case Nil then show ?case by auto
next
  case (Cons e es)
  obtain s1 o1 where s1: "step e s = (s1, o1)" by (cases "step e s")
  obtain s2 o2 where s2: "run es s1 = (s2, o2)" by (cases "run es s1")
  from step_consts[OF s1] Cons.IH[OF s2] s1 s2 Cons.prems show ?case by auto
qed

lemma run_quiet:
  "\<not> hasSoundDetected (snd s) \<Longrightarrow> \<forall>v. Sample v \<in> set es \<longrightarrow> v < soundThreshold (fst s) \<Longrightarrow>
   run es s = (s', out) \<Longrightarrow> \<not> hasSoundDetected (snd s') \<and> signals out = 0"
proof (induction es arbitrary: s s' out)
  case Nil then show ?case by (auto simp: signals_def)
next
  case (Cons e es)
  obtain s1 o1 where s1: "step e s = (s1, o1)" by (cases "step e s")
  obtain s2 o2 where s2: "run es s1 = (s2, o2)" by (cases "run es s1")
  from Cons.prems s1 have q: "\<not> hasSoundDetected (snd s1) \<and> SilenceDetected \<notin> set o1"
    using step_quiet[of s e s1 o1] by auto
  from step_consts[OF s1] Cons.prems
  have "\<forall>v. Sample v \<in> set es \<longrightarrow> v < soundThreshold (fst s1)" by auto
  with Cons.IH[OF _ _ s2] q have "\<not> hasSoundDetected (snd s2) \<and> signals o2 = 0" by blast
  with q s1 s2 Cons.prems(3) show ?case by (auto simp: signals_append signals_0_iff)
qed

lemma run_once:
  "run es s = (s', out) \<Longrightarrow>
     signals out + (if silenceTriggered (snd s) then 1 else 0)
       \<le> (if silenceTriggered (snd s') then 1 else 0)"
proof (induction es arbitrary: s s' out)
  case Nil then show ?case by (auto simp: signals_def)
next
  case (Cons e es)
  obtain s1 o1 where s1: "step e s = (s1, o1)" by (cases "step e s")
  obtain s2 o2 where s2: "run es s1 = (s2, o2)" by (cases "run es s1")
  from s1 s2 Cons.prems have "s' = s2" "out = o1 @ o2" by auto
  with step_once[OF s1] Cons.IH[OF s2] show ?case
    by (simp add: signals_append split: if_splits)
qed

lemma list_all_samples: "list_all P (samples es) \<longleftrightarrow> (\<forall>v. Sample v \<in> set es \<longrightarrow> P v)"
  by (induction es rule: samples.induct) auto

lemma startRecording_fresh:
  assumes "startRecording p r0 = Inr s"
  shows "\<not> hasSoundDetected (snd s) \<and> \<not> silenceTriggered (snd s) \<and> isRecording (snd s) \<and>
         audioChunks (snd s) = [] \<and> consecutiveSilenceChecks (fst s) = 0 \<and>
         soundThreshold (fst s) = silenceThreshold (snd s) + 5 \<and>
         silenceThreshold (snd s) = silenceThreshold r0"
  using assms
  by (auto simp: startRecording_def startVolumeMonitoring_def Let_def split: option.splits if_splits)

lemmas scenario_defs = feed_def scenario_start_def step_def volumeCheck_def
  ondataavailable_def signals_def Let_def

lemma scenario_start_fresh:
  "startRecording scenario_platform (AudioRecorder scenario_options) = Inr scenario_start"
  by (simp add: startRecording_def scenario_platform_def AudioRecorder_def scenario_options_def
      scenario_start_def startVolumeMonitoring_def or_default_def checkInterval_def Let_def)

subsection \<open>The claims about the recorder\<close>

text \<open>
  C1 (sound-first invariant). Take the session that \<open>startRecording\<close> opens and any
  events of it. If every volume sample among the events \<open>pre\<close> is below
  \<open>silenceThreshold\<close> and the next sample \<open>loud\<close> reaches \<open>soundThreshold\<close>, then no
  \<open>onSilenceDetected\<close> call is made while \<open>pre\<close> is processed, nor by the loud sample
  itself. And if every sample among the events \<open>es\<close> is below \<open>soundThreshold\<close>, no
  call is made at all. Here \<open>soundThreshold\<close> is \<open>silenceThreshold + 5\<close>. (By
  \<open>run_append\<close>, what a session emits while a prefix of its events is processed is what
  \<open>run\<close> emits on that prefix.)
\<close>

theorem sound_first_invariant:
  assumes "startRecording p r0 = Inr s"
  shows "(list_all (\<lambda>v. v < silenceThreshold (snd s)) (samples pre) \<and> soundThreshold (fst s) \<le> loud
            \<longrightarrow> signals (snd (run pre s)) = 0 \<and> signals (snd (run (pre @ [Sample loud]) s)) = 0)
       \<and> (list_all (\<lambda>v. v < soundThreshold (fst s)) (samples es)
            \<longrightarrow> signals (snd (run es s)) = 0)
       \<and> soundThreshold (fst s) = silenceThreshold (snd s) + 5"
proof -
  note fresh = startRecording_fresh[OF assms]
  have quiet: "signals (snd (run xs s)) = 0 \<and> \<not> hasSoundDetected (snd (fst (run xs s)))"
    if "list_all (\<lambda>v. v < soundThreshold (fst s)) (samples xs)" for xs
    using run_quiet[of s xs "fst (run xs s)" "snd (run xs s)"] fresh that
    by (simp add: list_all_samples)
  have "signals (snd (run pre s)) = 0 \<and> signals (snd (run (pre @ [Sample loud]) s)) = 0"
    if below: "list_all (\<lambda>v. v < silenceThreshold (snd s)) (samples pre)"
      and loud: "soundThreshold (fst s) \<le> loud"
  proof -
    obtain s1 o1 where r1: "run pre s = (s1, o1)" by (cases "run pre s")
    from below fresh have "list_all (\<lambda>v. v < soundThreshold (fst s)) (samples pre)"
      by (auto simp: list_all_iff)
    from quiet[OF this] r1 have q: "signals o1 = 0" by simp
    from run_consts[OF r1] fresh loud
    have "soundThreshold (fst s1) \<le> loud" "silenceThreshold (snd s1) \<le> soundThreshold (fst s1)"
      by auto
    from volumeCheck_loud[OF this] have "signals (snd (volumeCheck loud s1)) = 0"
      by (simp add: signals_0_iff)
    with q r1 show ?thesis
      by (auto simp: run_append step_def signals_append split: prod.splits)
  qed
  with quiet fresh show ?thesis by blast
qed

text \<open>
  The theorem at the session of Scenario A: two quiet samples and then a loud one; and
  four samples that stay below 25, two of them in the band between the thresholds.
\<close>

theorem sound_first_invariant_witness:
  "startRecording scenario_platform (AudioRecorder scenario_options) = Inr scenario_start
   \<and> list_all (\<lambda>v. v < silenceThreshold (snd scenario_start)) (samples (feed [5, 5]))
   \<and> soundThreshold (fst scenario_start) \<le> 30
   \<and> signals (snd (run (feed [5, 5] @ [Sample 30]) scenario_start)) = 0
   \<and> list_all (\<lambda>v. v < soundThreshold (fst scenario_start)) (samples (feed [5, 22, 24, 5]))
   \<and> signals (snd (run (feed [5, 22, 24, 5]) scenario_start)) = 0"
proof -
  have h: "list_all (\<lambda>v. v < silenceThreshold (snd scenario_start)) (samples (feed [5, 5]))"
    "soundThreshold (fst scenario_start) \<le> 30"
    "list_all (\<lambda>v. v < soundThreshold (fst scenario_start)) (samples (feed [5, 22, 24, 5]))"
    by (simp_all add: feed_def scenario_start_def)
  with sound_first_invariant[OF scenario_start_fresh, of "feed [5, 5]" 30 "feed [5, 22, 24, 5]"]
  show ?thesis by (simp add: scenario_start_fresh)
qed

text \<open>
  C2 (one-shot invariant). From any state of the recorder and its monitor, and so from
  the one \<open>startRecording\<close> leaves, any sequence of session events (volume samples,
  chunks, \<open>stopRecording\<close>, the \<open>stop\<close> event) makes at most one
  \<open>onSilenceDetected\<close> call.
\<close>

theorem one_shot_invariant: "signals (snd (run es s)) \<le> 1"
  using run_once[of es s "fst (run es s)" "snd (run es s)"] by (simp split: if_splits)

text \<open>
  C3 as stated fails. After a loud sample and three silent ones the counter is 3; the
  sample 22 lies in the band from 20 to 25, and it sets the counter to 0.
\<close>

theorem hysteresis_band_counterexample:
  "isRecording (snd band_state) \<and> hasSoundDetected (snd band_state)
   \<and> silenceThreshold (snd band_state) \<le> 22 \<and> 22 < soundThreshold (fst band_state)
   \<and> consecutiveSilenceChecks (fst band_state) = 3
   \<and> consecutiveSilenceChecks (fst (fst (volumeCheck 22 band_state))) = 0
   \<and> consecutiveSilenceChecks (fst (fst (volumeCheck 22 band_state)))
       \<noteq> consecutiveSilenceChecks (fst band_state)"
  by (simp add: band_state_def scenario_defs)

text \<open>
  C3, amended (hysteresis band). While recording, with \<open>hasSoundDetected\<close> already set,
  a sample with \<open>silenceThreshold \<le> v < soundThreshold\<close> does not increment the
  consecutive-silence counter but resets it to 0; the fields of the recorder stay as they
  are and no \<open>onSilenceDetected\<close> call is made.
\<close>

theorem hysteresis_band_resets:
  assumes "isRecording r" "hasSoundDetected r" "silenceThreshold r \<le> v" "v < soundThreshold m"
  shows "consecutiveSilenceChecks (fst (fst (volumeCheck v (m, r)))) = 0
       \<and> snd (fst (volumeCheck v (m, r))) = r
       \<and> signals (snd (volumeCheck v (m, r))) = 0"
  using assms by (auto simp: volumeCheck_def signals_def Let_def)

text \<open>The amended theorem at the state and the sample of the counterexample.\<close>

theorem hysteresis_band_resets_witness:
  "isRecording (snd band_state) \<and> hasSoundDetected (snd band_state)
   \<and> silenceThreshold (snd band_state) \<le> 22 \<and> 22 < soundThreshold (fst band_state)
   \<and> consecutiveSilenceChecks (fst (fst (volumeCheck 22 band_state))) = 0
   \<and> snd (fst (volumeCheck 22 band_state)) = snd band_state
   \<and> signals (snd (volumeCheck 22 band_state)) = 0"
proof -
  have h: "isRecording (snd band_state)" "hasSoundDetected (snd band_state)"
    "silenceThreshold (snd band_state) \<le> 22" "22 < soundThreshold (fst band_state)"
    by (simp_all add: band_state_def scenario_defs)
  from hysteresis_band_resets[OF h] h show ?thesis by simp
qed

text \<open>
  C4 as stated fails: on the thirteen samples of Scenario A no \<open>onSilenceDetected\<close>
  call is made. Samples 6 to 13 are eight silent samples, and ten are needed.
\<close>

theorem scenarioA_counterexample:
  "signals (snd (run (feed scenarioA) scenario_start)) = 0
   \<and> signals (snd (run (feed scenarioA) scenario_start)) \<noteq> 1
   \<and> consecutiveSilenceChecks (fst (fst (run (feed scenarioA) scenario_start))) = 8
   \<and> silenceChecksNeeded (fst (fst (run (feed scenarioA) scenario_start))) = 10"
  by (simp add: scenarioA_def scenario_defs)

text \<open>
  C4, amended (Scenario A). With threshold 20 and duration 1000 ms the session starts with
  \<open>soundThreshold = 25\<close> and needs 10 silent checks. On the samples
  5, 5, 30, 30, 30, 5, 5, 5, 5, 5, 5, 5, 5, with a chunk recorded: no call and no sound flag after
  samples 1-2; the sound flag is set by sample 3; the counter is 0 after sample 5 and 1
  after sample 6; it is 8 after sample 13, and no call has been made by then. If the
  silence goes on, the call is made at sample 15 (none after 14, one after 15), and it
  stays the only one ten samples later.
\<close>

theorem scenarioA_trace:
  "startRecording scenario_platform (AudioRecorder scenario_options) = Inr scenario_start
   \<and> signals (snd (run (feed (take 2 scenarioA)) scenario_start)) = 0
   \<and> \<not> hasSoundDetected (snd (fst (run (feed (take 2 scenarioA)) scenario_start)))
   \<and> hasSoundDetected (snd (fst (run (feed (take 3 scenarioA)) scenario_start)))
   \<and> consecutiveSilenceChecks (fst (fst (run (feed (take 5 scenarioA)) scenario_start))) = 0
   \<and> consecutiveSilenceChecks (fst (fst (run (feed (take 6 scenarioA)) scenario_start))) = 1
   \<and> consecutiveSilenceChecks (fst (fst (run (feed scenarioA) scenario_start))) = 8
   \<and> silenceChecksNeeded (fst scenario_start) = 10
   \<and> signals (snd (run (feed scenarioA) scenario_start)) = 0
   \<and> signals (snd (run (feed (scenarioA @ [5])) scenario_start)) = 0
   \<and> signals (snd (run (feed (scenarioA @ [5, 5])) scenario_start)) = 1
   \<and> signals (snd (run (feed (scenarioA @ [5, 5, 5, 5, 5, 5, 5, 5, 5, 5, 5, 5])) scenario_start)) = 1"
proof -
  have a: "signals (snd (run (feed (take 2 scenarioA)) scenario_start)) = 0"
    by (simp add: scenarioA_def scenario_defs)
  have b: "\<not> hasSoundDetected (snd (fst (run (feed (take 2 scenarioA)) scenario_start)))"
    by (simp add: scenarioA_def scenario_defs)
  have c: "hasSoundDetected (snd (fst (run (feed (take 3 scenarioA)) scenario_start)))"
    by (simp add: scenarioA_def scenario_defs)
  have d: "consecutiveSilenceChecks (fst (fst (run (feed (take 5 scenarioA)) scenario_start))) = 0"
    by (simp add: scenarioA_def scenario_defs)
  have e: "consecutiveSilenceChecks (fst (fst (run (feed (take 6 scenarioA)) scenario_start))) = 1"
    by (simp add: scenarioA_def scenario_defs)
  have f: "consecutiveSilenceChecks (fst (fst (run (feed scenarioA) scenario_start))) = 8"
    by (simp add: scenarioA_def scenario_defs)
  have g: "silenceChecksNeeded (fst scenario_start) = 10"
    by (simp add: scenario_start_def)
  have h: "signals (snd (run (feed scenarioA) scenario_start)) = 0"
    by (simp add: scenarioA_def scenario_defs)
  have i: "signals (snd (run (feed (scenarioA @ [5])) scenario_start)) = 0"
    by (simp add: scenarioA_def scenario_defs)
  have j: "signals (snd (run (feed (scenarioA @ [5, 5])) scenario_start)) = 1"
    by (simp add: scenarioA_def scenario_defs)
  have k: "signals (snd (run (feed (scenarioA @ [5, 5, 5, 5, 5, 5, 5, 5, 5, 5, 5, 5])) scenario_start)) = 1"
    by (simp add: scenarioA_def scenario_defs)
  from scenario_start_fresh a b c d e f g h i j k show ?thesis by blast
qed

text \<open>
  C9. \<open>getCurrentAudioBlob\<close> returns \<open>null\<close> exactly when the chunk buffer is empty;
  otherwise it returns the concatenation of the chunks; and it leaves every field of the
  recorder as it was.
\<close>

theorem getCurrentAudioBlob_result:
  "(fst (getCurrentAudioBlob r) = None \<longleftrightarrow> audioChunks r = [])
   \<and> fst (getCurrentAudioBlob r) =
       (if audioChunks r = [] then None else Some (concat (audioChunks r)))
   \<and> snd (getCurrentAudioBlob r) = r"
  by (simp add: getCurrentAudioBlob_def)

text \<open>
  C10. The constructor replaces a threshold 0 by 20 and a duration 0 by 1500, as it does an
  absent one; no options give a recorder with threshold 0 or duration 0.
\<close>

theorem constructor_defaults:
  "silenceThreshold (AudioRecorder (options\<lparr>opt_silenceThreshold := Some 0\<rparr>)) = 20
   \<and> silenceDuration (AudioRecorder (options\<lparr>opt_silenceDuration := Some 0\<rparr>)) = 1500
   \<and> silenceThreshold (AudioRecorder (options\<lparr>opt_silenceThreshold := None\<rparr>)) = 20
   \<and> silenceDuration (AudioRecorder (options\<lparr>opt_silenceDuration := None\<rparr>)) = 1500
   \<and> silenceThreshold (AudioRecorder options) \<noteq> 0
   \<and> silenceDuration (AudioRecorder options) \<noteq> 0"
  by (simp add: AudioRecorder_def or_default_def split: option.splits)

section \<open>The stop phrase: the regular expression against the specification\<close>

lemma isWordChar_lower [simp]: "isWordChar (toLowerChar c) = isWordChar c"
  by (auto simp: isWordChar_def toLowerChar_def Let_def)

lemma white_not_word: "isWhiteSpace c \<Longrightarrow> \<not> isWordChar c"
  by (auto simp: isWordChar_def isWhiteSpace_def Let_def)

lemma fields_nonempty [simp]: "fields s \<noteq> []"
  by (cases s) (auto split: list.splits)

lemma fields_Cons [simp]:
  "fields (c # cs) =
     (if isWordChar c then (c # hd (fields cs)) # tl (fields cs) else [] # fields cs)"
  using fields_nonempty[of cs] by (cases "fields cs") auto

declare fields.simps(2) [simp del]

lemma fields_words: "list_all isWordChar w \<Longrightarrow> fields w = [w]"
  by (induction w) auto

lemma fields_sep: "\<not> isWordChar c \<Longrightarrow> fields (a @ c # b) = fields a @ fields b"
  by (induction a) (auto simp: hd_append)

lemma hd_fields: "hd (fields s) = takeWhile isWordChar s"
  by (induction s) auto

lemma set_fields: "set (fields s) = insert (hd (fields s)) (set (tl (fields s)))"
  by (cases "fields s") auto

lemma dropWhile_word_boundary: "dropWhile isWordChar s = [] \<or> \<not> isWordChar (hd (dropWhile isWordChar s))"
  using hd_dropWhile[of isWordChar s] by blast

text \<open>A field that is not the first one has a separator right before it.\<close>

lemma tl_fields_decomp:
  "f \<in> set (tl (fields s)) \<Longrightarrow>
     \<exists>pre post. s = pre @ f @ post \<and> pre \<noteq> [] \<and> \<not> isWordChar (last pre)
        \<and> (post = [] \<or> \<not> isWordChar (hd post))"
proof (induction s)
  case Nil then show ?case by simp
next
  case (Cons c cs)
  show ?case
  proof (cases "isWordChar c")
    case True
    with Cons.prems have "f \<in> set (tl (fields cs))" by simp
    from Cons.IH[OF this] obtain pre post where
      "cs = pre @ f @ post" "pre \<noteq> []" "\<not> isWordChar (last pre)" "post = [] \<or> \<not> isWordChar (hd post)"
      by blast
    then have "c # cs = (c # pre) @ f @ post \<and> c # pre \<noteq> [] \<and> \<not> isWordChar (last (c # pre))
        \<and> (post = [] \<or> \<not> isWordChar (hd post))" by simp
    then show ?thesis by blast
  next
    case False
    with Cons.prems have "f \<in> set (fields cs)" by simp
    then consider "f = takeWhile isWordChar cs" | "f \<in> set (tl (fields cs))"
      using set_fields[of cs] hd_fields[of cs] by auto
    then show ?thesis
    proof cases
      case 1
      with False have "c # cs = [c] @ f @ dropWhile isWordChar cs \<and> [c] \<noteq> [] \<and> \<not> isWordChar (last [c])"
        by simp
      with dropWhile_word_boundary[of cs] show ?thesis by blast
    next
      case 2
      from Cons.IH[OF this] obtain pre post where
        "cs = pre @ f @ post" "pre \<noteq> []" "\<not> isWordChar (last pre)" "post = [] \<or> \<not> isWordChar (hd post)"
        by blast
      then have "c # cs = (c # pre) @ f @ post \<and> c # pre \<noteq> [] \<and> \<not> isWordChar (last (c # pre))
          \<and> (post = [] \<or> \<not> isWordChar (hd post))" by simp
      then show ?thesis by blast
    qed
  qed
qed

lemma fields_decomp:
  assumes "f \<in> set (fields s)"
  shows "\<exists>pre post. s = pre @ f @ post \<and> (pre = [] \<or> \<not> isWordChar (last pre))
        \<and> (post = [] \<or> \<not> isWordChar (hd post))"
proof -
  from assms consider "f = takeWhile isWordChar s" | "f \<in> set (tl (fields s))"
    using set_fields[of s] hd_fields[of s] by auto
  then show ?thesis
  proof cases
    case 1
    then have "s = [] @ f @ dropWhile isWordChar s" by simp
    with dropWhile_word_boundary[of s] show ?thesis by blast
  next
    case 2
    from tl_fields_decomp[OF this] show ?thesis by blast
  qed
qed

lemma decomp_fields:
  assumes "list_all isWordChar w" "pre = [] \<or> \<not> isWordChar (last pre)"
    "post = [] \<or> \<not> isWordChar (hd post)"
  shows "w \<in> set (fields (pre @ w @ post))"
proof -
  have right: "w \<in> set (fields (w @ post))"
  proof (cases post)
    case Nil with assms(1) show ?thesis by (simp add: fields_words)
  next
    case (Cons c post')
    with assms(3) have "\<not> isWordChar c" by simp
    from fields_sep[OF this, of w post'] Cons assms(1) show ?thesis by (simp add: fields_words)
  qed
  show ?thesis
  proof (cases pre rule: rev_cases)
    case Nil with right show ?thesis by simp
  next
    case (snoc pre' c)
    with assms(2) have "\<not> isWordChar c" by simp
    from fields_sep[OF this, of pre' "w @ post"] snoc right show ?thesis by simp
  qed
qed

lemma stopWords_word: "w \<in> set stopWords \<Longrightarrow> w \<noteq> [] \<and> list_all isWordChar w"
  by (auto simp: stopWords_def isWordChar_def)

lemma matchAt_split:
  assumes "w \<noteq> []" "list_all isWordChar w"
  shows "matchAt (pre @ w @ post) (length pre) w \<longleftrightarrow>
           (pre = [] \<or> \<not> isWordChar (last pre)) \<and> (post = [] \<or> \<not> isWordChar (hd post))"
proof -
  let ?s = "pre @ w @ post"
  from assms have hw: "isWordChar (hd w)" "isWordChar (last w)"
    by (cases w; simp add: list_all_iff)+
  have a: "wordAt ?s (length pre)"
    using assms(1) hw(1) by (cases w) (simp_all add: wordAt_def nth_append)
  have b: "(0 < length pre \<and> wordAt ?s (length pre - 1)) \<longleftrightarrow> (pre \<noteq> [] \<and> isWordChar (last pre))"
    by (cases pre rule: rev_cases) (auto simp: wordAt_def nth_append)
  have c: "0 < length pre + length w \<and> wordAt ?s (length pre + length w - 1)"
    using assms(1) hw(2) by (cases w rule: rev_cases) (auto simp: wordAt_def nth_append)
  have d: "wordAt ?s (length pre + length w) \<longleftrightarrow> (post \<noteq> [] \<and> isWordChar (hd post))"
    by (cases post) (auto simp: wordAt_def nth_append)
  have e: "take (length w) (drop (length pre) ?s) = w" by simp
  show ?thesis unfolding matchAt_def boundary_def using a b c d e by blast
qed

lemma take_drop_split:
  assumes "take (length w) (drop i s) = w" "w \<noteq> []"
  shows "\<exists>pre post. s = pre @ w @ post \<and> length pre = i"
proof -
  from assms have "i < length s" by (cases "i < length s") auto
  have "s = take i s @ take (length w) (drop i s) @ drop (length w) (drop i s)"
    by (metis append_take_drop_id)
  with assms(1) have "s = take i s @ w @ drop (length w) (drop i s)" by simp
  moreover from \<open>i < length s\<close> have "length (take i s) = i" by simp
  ultimately show ?thesis by blast
qed

lemma matchStop_fields: "matchStop s \<longleftrightarrow> (\<exists>w \<in> set stopWords. w \<in> set (fields s))"
proof
  assume "matchStop s"
  then obtain i w where w: "w \<in> set stopWords" and m: "matchAt s i w"
    by (auto simp: matchStop_def list_ex_iff)
  from stopWords_word[OF w] have ww: "w \<noteq> []" "list_all isWordChar w" by auto
  from m have "take (length w) (drop i s) = w" by (simp add: matchAt_def)
  from take_drop_split[OF this ww(1)] obtain pre post where s: "s = pre @ w @ post" "length pre = i"
    by blast
  with m matchAt_split[OF ww, of pre post] decomp_fields[OF ww(2), of pre post] w
  show "\<exists>w \<in> set stopWords. w \<in> set (fields s)" by auto
next
  assume "\<exists>w \<in> set stopWords. w \<in> set (fields s)"
  then obtain w where w: "w \<in> set stopWords" and f: "w \<in> set (fields s)" by blast
  from stopWords_word[OF w] have ww: "w \<noteq> []" "list_all isWordChar w" by auto
  from fields_decomp[OF f] obtain pre post where
    s: "s = pre @ w @ post" "pre = [] \<or> \<not> isWordChar (last pre)" "post = [] \<or> \<not> isWordChar (hd post)"
    by blast
  with matchAt_split[OF ww, of pre post] have "matchAt s (length pre) w" by simp
  moreover from s(1) have "length pre \<in> set [0..<Suc (length s)]" by simp
  ultimately show "matchStop s" using w unfolding matchStop_def list_ex_iff by blast
qed

lemma fields_lower: "fields (toLowerCase s) = map toLowerCase (fields s)"
  by (induction s) (auto simp: toLowerCase_def hd_map map_tl)

lemma words_skip: "\<not> isWordChar c \<Longrightarrow> set (wordsOf (c # s)) = set (wordsOf s)"
  by (auto simp: wordsOf_def)

lemma words_dropWhile: "set (wordsOf (dropWhile isWhiteSpace s)) = set (wordsOf s)"
  by (induction s) (auto simp: words_skip white_not_word)

lemma words_nonword: "list_all (\<lambda>c. \<not> isWordChar c) z \<Longrightarrow> set (wordsOf z) = {}"
  by (induction z) (auto simp: wordsOf_def)

lemma words_suffix:
  assumes "list_all (\<lambda>c. \<not> isWordChar c) z"
  shows "set (wordsOf (a @ z)) = set (wordsOf a)"
proof (cases z)
  case Nil then show ?thesis by simp
next
  case (Cons c z')
  with assms have c: "\<not> isWordChar c" and z': "list_all (\<lambda>c. \<not> isWordChar c) z'" by auto
  from words_nonword[OF z'] have "set (fields z') - {[]} = {}" by (auto simp: wordsOf_def)
  with fields_sep[OF c, of a z'] Cons show ?thesis by (auto simp: wordsOf_def)
qed

lemma words_trim: "set (wordsOf (trim s)) = set (wordsOf s)"
proof -
  let ?d = "dropWhile isWhiteSpace s"
  let ?z = "rev (takeWhile isWhiteSpace (rev ?d))"
  have "rev (rev ?d) = rev (takeWhile isWhiteSpace (rev ?d) @ dropWhile isWhiteSpace (rev ?d))"
    by (simp only: takeWhile_dropWhile_id)
  then have d: "?d = trim s @ ?z" by (simp only: rev_rev_ident rev_append trim_def)
  have "list_all (\<lambda>c. \<not> isWordChar c) ?z"
    by (auto simp: list_all_iff white_not_word dest: set_takeWhileD)
  from words_suffix[OF this, of "trim s"] d have "set (wordsOf ?d) = set (wordsOf (trim s))" by simp
  with words_dropWhile[of s] show ?thesis by simp
qed

lemma lower_Nil: "toLowerCase f = [] \<longleftrightarrow> f = []"
  by (simp add: toLowerCase_def)

text \<open>
  On the text the handler tests (trimmed and lowered), the regular expression of the
  source matches exactly when the transcription contains a stop word as a whole word.
\<close>

lemma matchStop_refines: "matchStop (toLowerCase (trim t)) \<longleftrightarrow> containsStopWord t"
proof -
  have "matchStop (toLowerCase (trim t))
          \<longleftrightarrow> (\<exists>f \<in> set (fields (trim t)). toLowerCase f \<in> set stopWords)"
    by (auto simp: matchStop_fields fields_lower)
  also have "\<dots> \<longleftrightarrow> (\<exists>f \<in> set (wordsOf (trim t)). toLowerCase f \<in> set stopWords)"
  proof -
    have "f \<noteq> []" if "toLowerCase f \<in> set stopWords" for f
      using stopWords_word[OF that] by (simp add: lower_Nil)
    then show ?thesis by (auto simp: wordsOf_def)
  qed
  also have "\<dots> \<longleftrightarrow> containsStopWord t"
    by (simp add: words_trim containsStopWord_def list_ex_iff)
  finally show ?thesis .
qed

section \<open>Properties of the conversation component\<close>

lemma recorderStop_total: "\<exists>s' as. recorderStop s = Inr (s', as)"
proof (cases "audioRecorderRef s")
  case None then show ?thesis by (simp add: recorderStop_def)
next
  case (Some r)
  with stopRecording_total[of r] show ?thesis by (auto simp: recorderStop_def)
qed

lemma recorderStop_stopped:
  assumes "recorderStop s = Inr (s', as)"
  shows "case audioRecorderRef s' of None \<Rightarrow> True | Some r \<Rightarrow> stopRecording r = Inr (r, [])"
proof (cases "audioRecorderRef s")
  case None with assms show ?thesis by (auto simp: recorderStop_def)
next
  case (Some r)
  with stopRecording_twice[of r] assms show ?thesis by (auto simp: recorderStop_def)
qed

lemma recorderStop_again:
  assumes "case audioRecorderRef s of None \<Rightarrow> True | Some r \<Rightarrow> stopRecording r = Inr (r, [])"
  shows "recorderStop s = Inr (s, [])"
proof (cases "audioRecorderRef s")
  case None then show ?thesis by (simp add: recorderStop_def)
next
  case (Some r)
  then have "s\<lparr>audioRecorderRef := Some r\<rparr> = s" by simp
  with Some assms show ?thesis by (simp add: recorderStop_def)
qed

lemma recorderStop_fields:
  "recorderStop s = Inr (s', as) \<Longrightarrow>
     voiceState s' = voiceState s \<and> isActive s' = isActive s \<and>
     isProcessingRef s' = isProcessingRef s \<and> listeningTimeoutRef s' = listeningTimeoutRef s \<and>
     ttsRef s' = ttsRef s \<and> conversation s' = conversation s \<and>
     currentTranscript s' = currentTranscript s \<and> textInput s' = textInput s \<and>
     hasDetectedSpeechRef s' = hasDetectedSpeechRef s \<and>
     (\<forall>x. s'\<lparr>audioRecorderRef := x\<rparr> = s\<lparr>audioRecorderRef := x\<rparr>)"
  by (auto simp: recorderStop_def split: option.splits sum.splits)

lemma handleStop_twice:
  "\<exists>s' as as'. handleStop s = Inr (s', as) \<and> handleStop s' = Inr (s', as') \<and> releases as' = []"
proof -
  let ?s1 = "s\<lparr>isActive := False, voiceState := Idle, isProcessingRef := False\<rparr>"
  let ?s2 = "fst (clearListeningTimeout ?s1)"
  obtain s3 a3 where 3: "recorderStop ?s2 = Inr (s3, a3)"
    using recorderStop_total by blast
  from recorderStop_fields[OF 3]
  have f: "voiceState s3 = Idle" "\<not> isActive s3" "\<not> isProcessingRef s3" "listeningTimeoutRef s3 = None"
    by (auto simp: clearListeningTimeout_def split: option.splits)
  let ?s4 = "fst (ttsCancel s3)"
  have "audioRecorderRef ?s4 = audioRecorderRef s3"
    by (auto simp: ttsCancel_def cancel_def split: option.splits)
  with recorderStop_stopped[OF 3] have 4: "recorderStop ?s4 = Inr (?s4, [])"
    by (intro recorderStop_again) simp
  have 5: "fst (ttsCancel ?s4) = ?s4"
    by (auto simp: ttsCancel_def cancel_def split: option.splits)
  have 6: "?s4\<lparr>isActive := False, voiceState := Idle, isProcessingRef := False\<rparr> = ?s4"
    "listeningTimeoutRef ?s4 = None"
    using f by (auto simp: ttsCancel_def cancel_def split: option.splits)
  have first: "handleStop s = Inr (?s4, snd (clearListeningTimeout ?s1) @ a3 @ snd (ttsCancel s3)
                 @ [ToastSuccess ''Voice chat stopped''])"
    using 3 by (simp add: handleStop_def Let_def case_prod_beta)
  have second: "handleStop ?s4 = Inr (?s4, snd (ttsCancel ?s4) @ [ToastSuccess ''Voice chat stopped''])"
    using 4 5 6 by (simp add: handleStop_def Let_def clearListeningTimeout_def case_prod_beta)
  have "releases (snd (ttsCancel ?s4) @ [ToastSuccess ''Voice chat stopped'']) = []"
    by (auto simp: releases_def ttsCancel_def cancel_def split: option.splits)
  with first second show ?thesis by blast
qed

lemma fire_guarded: "isProcessingRef s \<Longrightarrow> fire t s = (s, [])"
  by (cases t) (auto simp: fire_def handleSilenceDetected_def listeningTimeout_def handleTextSubmit_def)

lemma handleSilenceDetected_flag:
  assumes "\<not> isProcessingRef s"
  shows "isProcessingRef (fst (handleSilenceDetected c s)) \<or> handleSilenceDetected c s = (s, [])"
proof -
  obtain b s0 where b: "currentAudioBlob s = (b, s0)" by (cases "currentAudioBlob s")
  then have s0: "s0 = s"
    by (auto simp: currentAudioBlob_def getCurrentAudioBlob_def split: option.splits if_splits)
  show ?thesis
  proof (cases "case b of None \<Rightarrow> True | Some x \<Rightarrow> length x < 2000")
    case True
    with b s0 assms show ?thesis
      by (auto simp: handleSilenceDetected_def split: option.splits)
  next
    case False
    then obtain x where x: "b = Some x" "\<not> length x < 2000" by (auto split: option.splits)
    let ?s1 = "s\<lparr>isProcessingRef := True, hasDetectedSpeechRef := False, voiceState := Processing\<rparr>"
    obtain s2 a2 where 2: "clearListeningTimeout ?s1 = (s2, a2)"
      by (cases "clearListeningTimeout ?s1")
    then have "isProcessingRef s2"
      by (auto simp: clearListeningTimeout_def split: option.splits)
    obtain s3 a3 where 3: "recorderStop s2 = Inr (s3, a3)"
      using recorderStop_total by blast
    from recorderStop_fields[OF 3] \<open>isProcessingRef s2\<close> have "isProcessingRef s3" by simp
    with b s0 x 2 3 assms show ?thesis
      by (simp add: handleSilenceDetected_def Let_def)
  qed
qed

lemma fire_keeps_flag:
  assumes "fire t s = (s', as)" "\<not> isProcessingRef s"
  shows "isProcessingRef s' \<or> (s' = s \<and> as = [])"
proof (cases t)
  case (SilenceCallback c)
  with assms handleSilenceDetected_flag[OF assms(2), of c] show ?thesis
    by (auto simp: fire_def)
next
  case (SafetyTimer c)
  with assms handleSilenceDetected_flag[OF assms(2), of c] show ?thesis
    by (auto simp: fire_def listeningTimeout_def split: if_splits)
next
  case (TextSubmit c now)
  with assms show ?thesis by (auto simp: fire_def handleTextSubmit_def Let_def split: if_splits)
qed

lemma fire_all_guarded: "isProcessingRef s \<Longrightarrow> fire_all ts s = (s, 0, [])"
  by (induction ts) (auto simp: fire_guarded)

lemma fire_all_once: "fst (snd (fire_all ts s)) \<le> 1"
proof (induction ts arbitrary: s)
  case Nil show ?case by simp
next
  case (Cons t ts)
  obtain s1 a1 where f: "fire t s = (s1, a1)" by (cases "fire t s")
  show ?case
  proof (cases "isProcessingRef s")
    case True
    then show ?thesis using fire_all_guarded[of s "t # ts"] by simp
  next
    case False
    from fire_keeps_flag[OF f False] show ?thesis
    proof
      assume "isProcessingRef s1"
      then have "fire_all ts s1 = (s1, 0, [])" by (rule fire_all_guarded)
      with f show ?thesis by simp
    next
      assume "s1 = s \<and> a1 = []"
      with f False Cons.IH[of s] show ?thesis by (simp split: prod.splits)
    qed
  qed
qed

lemma handleStop_effect:
  "\<exists>s' as. handleStop s = Inr (s', as)
     \<and> voiceState s' = Idle \<and> \<not> isActive s' \<and> \<not> isProcessingRef s' \<and> listeningTimeoutRef s' = None
     \<and> (case audioRecorderRef s' of None \<Rightarrow> True
         | Some r \<Rightarrow> \<not> isRecording r \<and> volumeCheckInterval r = None \<and> stream r = None
                     \<and> audioContext r = None \<and> mediaRecorder r \<noteq> Some Recording)
     \<and> (case ttsRef s' of None \<Rightarrow> True
         | Some x \<Rightarrow> \<not> isSpeaking x \<and> queue x = [] \<and> currentUtterance x = None)
     \<and> (case listeningTimeoutRef s of None \<Rightarrow> True | Some h \<Rightarrow> ClearListeningTimeout h \<in> set as)
     \<and> (case ttsRef s of None \<Rightarrow> True | Some x \<Rightarrow> SynthesisCancel \<in> set as)
     \<and> llmRequests as = []"
proof -
  let ?s1 = "s\<lparr>isActive := False, voiceState := Idle, isProcessingRef := False\<rparr>"
  obtain s2 a2 where 2: "clearListeningTimeout ?s1 = (s2, a2)" by (cases "clearListeningTimeout ?s1")
  obtain s3 a3 where 3: "recorderStop s2 = Inr (s3, a3)" using recorderStop_total by blast
  obtain s4 a4 where 4: "ttsCancel s3 = (s4, a4)" by (cases "ttsCancel s3")
  have hs: "handleStop s = Inr (s4, a2 @ a3 @ a4 @ [ToastSuccess ''Voice chat stopped''])"
    using 2 3 4 by (simp add: handleStop_def Let_def)
  from 2 have f2: "voiceState s2 = Idle" "\<not> isActive s2" "\<not> isProcessingRef s2"
      "listeningTimeoutRef s2 = None" "ttsRef s2 = ttsRef s"
      "case listeningTimeoutRef s of None \<Rightarrow> True | Some h \<Rightarrow> ClearListeningTimeout h \<in> set a2"
      "llmRequests a2 = []"
    by (auto simp: clearListeningTimeout_def llmRequests_def split: option.splits)
  from recorderStop_fields[OF 3] f2
  have f3: "voiceState s3 = Idle" "\<not> isActive s3" "\<not> isProcessingRef s3"
      "listeningTimeoutRef s3 = None" "ttsRef s3 = ttsRef s"
    by auto
  have r3: "case audioRecorderRef s3 of None \<Rightarrow> True
         | Some r \<Rightarrow> \<not> isRecording r \<and> volumeCheckInterval r = None \<and> stream r = None
                     \<and> audioContext r = None \<and> mediaRecorder r \<noteq> Some Recording"
    using 3 stopRecording_stopped
    by (fastforce simp: recorderStop_def split: option.splits sum.splits)
  have a3: "llmRequests a3 = []"
    using 3 by (auto simp: recorderStop_def llmRequests_def filter_empty_conv split: option.splits sum.splits)
  from 4 f3 r3
  have f4: "voiceState s4 = Idle" "\<not> isActive s4" "\<not> isProcessingRef s4"
      "listeningTimeoutRef s4 = None" "audioRecorderRef s4 = audioRecorderRef s3"
      "case ttsRef s4 of None \<Rightarrow> True
         | Some x \<Rightarrow> \<not> isSpeaking x \<and> queue x = [] \<and> currentUtterance x = None"
      "case ttsRef s of None \<Rightarrow> True | Some x \<Rightarrow> SynthesisCancel \<in> set a4"
      "llmRequests a4 = []"
    by (auto simp: ttsCancel_def cancel_def llmRequests_def split: option.splits)
  have "llmRequests (a2 @ a3 @ a4 @ [ToastSuccess ''Voice chat stopped'']) = []"
    using f2(7) a3 f4(8) by (simp add: llmRequests_def)
  with hs f2(6) f4 r3 show ?thesis
    by (auto split: option.splits)
qed

lemma containsStopWord_nonempty: "containsStopWord t \<Longrightarrow> t \<noteq> []"
  by (auto simp: containsStopWord_def wordsOf_def)

subsection \<open>The cycle on the timeline\<close>

lemma clearListeningTimeout_plain:
  "clearListeningTimeout s = (s', as) \<Longrightarrow>
     ttsRef s' = ttsRef s \<and> isProcessingRef s' = isProcessingRef s \<and> requestsOf k as = []
     \<and> requests as = []"
  by (auto simp: clearListeningTimeout_def requestsOf_def requests_def split: option.splits)

lemma recorderStop_plain:
  "recorderStop s = Inr (s', as) \<Longrightarrow> requestsOf k as = [] \<and> requests as = []"
  by (auto simp: recorderStop_def requestsOf_def requests_def filter_empty_conv
      split: option.splits sum.splits)

lemma requestsOf_append: "requestsOf k (xs @ ys) = requestsOf k xs @ requestsOf k ys"
  by (simp add: requestsOf_def)

lemma requests_append: "requests (xs @ ys) = requests xs @ requests ys"
  by (simp add: requests_def)

text \<open>What a silence callback does when the guard flag is clear.\<close>

lemma handleSilenceDetected_begins:
  assumes "\<not> isProcessingRef s"
  shows "handleSilenceDetected c s = (s, [])
       \<or> (\<exists>s' as. handleSilenceDetected c s = (s', as) \<and> isProcessingRef s'
             \<and> ttsRef s' = ttsRef s \<and> requestsOf k as = [SttRequest] \<and> length (requests as) = 1)"
proof -
  obtain b s0 where b: "currentAudioBlob s = (b, s0)" by (cases "currentAudioBlob s")
  then have s0: "s0 = s"
    by (auto simp: currentAudioBlob_def getCurrentAudioBlob_def split: option.splits if_splits)
  show ?thesis
  proof (cases "case b of None \<Rightarrow> True | Some x \<Rightarrow> length x < 2000")
    case True
    with b s0 assms show ?thesis
      by (auto simp: handleSilenceDetected_def split: option.splits)
  next
    case False
    then obtain x where x: "b = Some x" "\<not> length x < 2000" by (auto split: option.splits)
    let ?s1 = "s\<lparr>isProcessingRef := True, hasDetectedSpeechRef := False, voiceState := Processing\<rparr>"
    obtain s2 a2 where 2: "clearListeningTimeout ?s1 = (s2, a2)"
      by (cases "clearListeningTimeout ?s1")
    obtain s3 a3 where 3: "recorderStop s2 = Inr (s3, a3)"
      using recorderStop_total by blast
    from clearListeningTimeout_plain[OF 2, of k] recorderStop_fields[OF 3] recorderStop_plain[OF 3, of k]
    have "isProcessingRef s3" "ttsRef s3 = ttsRef s"
      "requestsOf k (a2 @ a3 @ [FetchStt x]) = [SttRequest]"
      "length (requests (a2 @ a3 @ [FetchStt x])) = 1"
      by (auto simp: requestsOf_append requests_append) (simp_all add: requestsOf_def requests_def)
    moreover from b s0 x 2 3 assms
    have "handleSilenceDetected c s = (s3, a2 @ a3 @ [FetchStt x])"
      by (simp add: handleSilenceDetected_def Let_def)
    ultimately show ?thesis by blast
  qed
qed

lemma fire_begins:
  assumes "\<not> isProcessingRef s"
  shows "fire t s = (s, [])
       \<or> (\<exists>s' as r. fire t s = (s', as) \<and> isProcessingRef s'
             \<and> ttsRef s' = ttsRef s \<and> requestsOf LlmRequestText as = [r] \<and> length (requests as) = 1)"
proof (cases t)
  case (SilenceCallback c)
  with handleSilenceDetected_begins[OF assms, of c LlmRequestText] show ?thesis
    by (auto simp: fire_def)
next
  case (SafetyTimer c)
  with handleSilenceDetected_begins[OF assms, of c LlmRequestText] show ?thesis
    by (auto simp: fire_def listeningTimeout_def)
next
  case (TextSubmit c now)
  with assms show ?thesis
    by (auto simp: fire_def handleTextSubmit_def Let_def requestsOf_def requests_def)
qed

lemma fire_all_requests: "length (requests (snd (snd (fire_all ts s)))) \<le> 1"
proof (induction ts arbitrary: s)
  case Nil show ?case by (simp add: requests_def)
next
  case (Cons t ts)
  show ?case
  proof (cases "isProcessingRef s")
    case True
    then show ?thesis using fire_all_guarded[of s "t # ts"] by (simp add: requests_def)
  next
    case False
    from fire_begins[OF False, of t] show ?thesis
    proof
      assume "fire t s = (s, [])"
      with Cons.IH[of s] show ?thesis by (simp split: prod.splits)
    next
      assume "\<exists>s' as r. fire t s = (s', as) \<and> isProcessingRef s'
             \<and> ttsRef s' = ttsRef s \<and> requestsOf LlmRequestText as = [r] \<and> length (requests as) = 1"
      then obtain s' as where f: "fire t s = (s', as)" "isProcessingRef s'" "length (requests as) = 1"
        by blast
      from f(2) have "fire_all ts s' = (s', 0, [])" by (rule fire_all_guarded)
      with f show ?thesis by (simp add: requests_def)
    qed
  qed
qed

lemma same_tts: "ttsRef s' = ttsRef s \<Longrightarrow> speaking s' = speaking s \<and> queueEmpty s' = queueEmpty s"
  by (simp add: speaking_def queueEmpty_def)

lemma covered_idle:
  assumes "covered w" "\<not> isProcessingRef (component w)"
  shows "awaiting w = []" "finishTimers w = 0" "\<not> speaking (component w)"
  using assms by (auto simp: covered_def inFlight_def split: if_splits)

lemma covered_awaiting:
  assumes "covered w" "r \<in> set (awaiting w)"
  shows "awaiting w = [r]" "finishTimers w = 0" "\<not> speaking (component w)"
    "isProcessingRef (component w)" "queueEmpty (component w)"
proof -
  from assms(2) obtain x xs where a: "awaiting w = x # xs" by (cases "awaiting w") auto
  with assms(1) have l: "xs = []" "finishTimers w = 0" "\<not> speaking (component w)"
    "isProcessingRef (component w)" "queueEmpty (component w)"
    by (auto simp: covered_def inFlight_def split: if_splits)
  from l(1) a assms(2) show "awaiting w = [r]" by simp
  from l show "finishTimers w = 0" "\<not> speaking (component w)"
    "isProcessingRef (component w)" "queueEmpty (component w)" by auto
qed

lemma timersOf_Nil [simp]: "timersOf [] = 0"
  by (simp add: timersOf_def)

lemma requestsOf_Nil [simp]: "requestsOf k [] = []"
  by (simp add: requestsOf_def)

lemma handleStop_plain:
  "\<exists>s' as. handleStop s = Inr (s', as) \<and> \<not> isProcessingRef s' \<and> \<not> speaking s'
     \<and> queueEmpty s' \<and> requestsOf k as = []"
proof -
  let ?s1 = "s\<lparr>isActive := False, voiceState := Idle, isProcessingRef := False\<rparr>"
  obtain s2 a2 where 2: "clearListeningTimeout ?s1 = (s2, a2)" by (cases "clearListeningTimeout ?s1")
  obtain s3 a3 where 3: "recorderStop s2 = Inr (s3, a3)" using recorderStop_total by blast
  obtain s4 a4 where 4: "ttsCancel s3 = (s4, a4)" by (cases "ttsCancel s3")
  have hs: "handleStop s = Inr (s4, a2 @ a3 @ a4 @ [ToastSuccess ''Voice chat stopped''])"
    using 2 3 4 by (simp add: handleStop_def Let_def)
  from clearListeningTimeout_plain[OF 2, of k] recorderStop_fields[OF 3] recorderStop_plain[OF 3, of k]
  have f3: "\<not> isProcessingRef s3" "requestsOf k a2 = []" "requestsOf k a3 = []" by auto
  from 4 f3(1) have f4: "\<not> isProcessingRef s4" "\<not> speaking s4" "queueEmpty s4" "requestsOf k a4 = []"
    by (auto simp: ttsCancel_def cancel_def speaking_def queueEmpty_def requestsOf_def
        split: option.splits)
  have "requestsOf k (a2 @ a3 @ a4 @ [ToastSuccess ''Voice chat stopped'']) = []"
    using f3 f4 by (simp add: requestsOf_append) (simp add: requestsOf_def)
  with hs f4 show ?thesis by blast
qed

lemma processingFailed_plain:
  "processingFailed c s = (s', as) \<Longrightarrow>
     \<not> isProcessingRef s' \<and> ttsRef s' = ttsRef s \<and> requestsOf k as = [] \<and> timersOf as = 0"
  by (auto simp: processingFailed_def requestsOf_def timersOf_def)

text \<open>The answer of the transcription service: the cycle ends, or goes on to the response service.\<close>

lemma sttResponded_cases:
  assumes "sttResponded c now resp s = (s', as)"
  shows "(\<not> isProcessingRef s' \<and> requestsOf k as = [] \<and> (speaking s' \<longrightarrow> speaking s)
            \<and> (queueEmpty s \<longrightarrow> queueEmpty s'))
       \<or> (isProcessingRef s' = isProcessingRef s \<and> ttsRef s' = ttsRef s \<and> requestsOf k as = [k])"
proof -
  have failed: ?thesis if "sttResponded c now resp s = processingFailed c s"
    using that assms processingFailed_plain[of c s s' as k] same_tts[of s' s] by auto
  show ?thesis
  proof (cases resp)
    case Rejected
    then show ?thesis by (intro failed) (simp add: sttResponded_def)
  next
    case (Json d)
    show ?thesis
    proof (cases "stt_text d")
      case None
      with Json show ?thesis by (intro failed) (simp add: sttResponded_def)
    next
      case (Some t)
      show ?thesis
      proof (cases "\<not> stt_success d \<or> t = []")
        case True
        with Json Some show ?thesis by (intro failed) (auto simp: sttResponded_def)
      next
        case False
        let ?s1 = "s\<lparr>currentTranscript := trim t, textInput := trim t\<rparr>"
        show ?thesis
        proof (cases "matchStop (toLowerCase (trim t))")
          case True
          from handleStop_plain[of ?s1 k] obtain s2 a2 where
            h: "handleStop ?s1 = Inr (s2, a2)" "\<not> isProcessingRef s2" "\<not> speaking s2"
               "queueEmpty s2" "requestsOf k a2 = []" by blast
          from Json Some False True h(1) have "sttResponded c now resp s = (s2, a2)"
            by (simp add: sttResponded_def Let_def)
          with assms h show ?thesis by auto
        next
          case nostop: False
          from Json Some False nostop assms show ?thesis
            by (auto simp: sttResponded_def Let_def requestsOf_def)
        qed
      qed
    qed
  qed
qed

lemma speak_plain:
  "speak text t = (t', as) \<Longrightarrow> (queue t = [] \<longrightarrow> queue t' = []) \<and> timersOf as = 0"
  by (auto simp: speak_def cancel_def timersOf_def Let_def split: if_splits)

lemma ttsSpeak_plain:
  "ttsSpeak text s = (s', as) \<Longrightarrow>
     isProcessingRef s' = isProcessingRef s \<and> (queueEmpty s \<longrightarrow> queueEmpty s') \<and> timersOf as = 0"
  by (auto simp: ttsSpeak_def queueEmpty_def dest: speak_plain split: option.splits prod.splits)

lemma timersOf_append: "timersOf (xs @ ys) = timersOf xs + timersOf ys"
  by (simp add: timersOf_def)

lemma llmResponded_cases:
  assumes "llmResponded c now resp s = (s', as)"
  shows "(queueEmpty s \<longrightarrow> queueEmpty s')
       \<and> ((\<not> isProcessingRef s' \<and> ttsRef s' = ttsRef s \<and> timersOf as = 0)
          \<or> (isProcessingRef s' = isProcessingRef s \<and> timersOf as = 0)
          \<or> (isProcessingRef s' = isProcessingRef s \<and> ttsRef s' = ttsRef s \<and> timersOf as = 1))"
proof -
  have failed: ?thesis if "llmResponded c now resp s = processingFailed c s"
    using that assms processingFailed_plain[of c s s' as LlmRequestVoice] same_tts[of s' s] by auto
  show ?thesis
  proof (cases resp)
    case Rejected
    then show ?thesis by (intro failed) (simp add: llmResponded_def)
  next
    case (Json d)
    show ?thesis
    proof (cases "llm_response d")
      case None
      with Json show ?thesis by (intro failed) (simp add: llmResponded_def)
    next
      case (Some m)
      show ?thesis
      proof (cases "\<not> llm_success d \<or> m = []")
        case True
        with Json Some show ?thesis by (intro failed) (auto simp: llmResponded_def)
      next
        case False
        let ?u = "conversation s @ [\<lparr>role = Assistant, content = m, timestamp = now\<rparr>]"
        show ?thesis
        proof (cases "c_ttsEnabled c \<and> \<not> c_isMuted c")
          case True
          obtain s1 a1 where 1: "ttsSpeak m (s\<lparr>conversation := ?u\<rparr>) = (s1, a1)"
            by (cases "ttsSpeak m (s\<lparr>conversation := ?u\<rparr>)")
          from Json Some False True 1 assms
          have r: "s' = s1\<lparr>currentTranscript := [], textInput := []\<rparr>"
            "as = a1 @ (if c_onConversationUpdate c then [OnConversationUpdate ?u] else [])"
            by (auto simp: llmResponded_def Let_def)
          have "timersOf (if c_onConversationUpdate c then [OnConversationUpdate ?u] else []) = 0"
            by (simp add: timersOf_def)
          with ttsSpeak_plain[OF 1] r show ?thesis
            by (auto simp: queueEmpty_def timersOf_append)
        next
          case notts: False
          from Json Some False notts assms show ?thesis
            by (auto simp: llmResponded_def Let_def queueEmpty_def timersOf_def)
        qed
      qed
    qed
  qed
qed

lemma textLlmResponded_cases:
  assumes "textLlmResponded c now resp s = (s', as)"
  shows "(queueEmpty s \<longrightarrow> queueEmpty s')
       \<and> ((\<not> isProcessingRef s' \<and> ttsRef s' = ttsRef s)
          \<or> isProcessingRef s' = isProcessingRef s)"
proof -
  have failed: ?thesis if "textLlmResponded c now resp s = textFailed s"
    using that assms by (auto simp: textFailed_def queueEmpty_def)
  show ?thesis
  proof (cases resp)
    case Rejected
    then show ?thesis by (intro failed) (simp add: textLlmResponded_def)
  next
    case (Json d)
    show ?thesis
    proof (cases "llm_response d")
      case None
      with Json show ?thesis by (intro failed) (simp add: textLlmResponded_def)
    next
      case (Some m)
      show ?thesis
      proof (cases "\<not> llm_success d \<or> m = []")
        case True
        with Json Some show ?thesis by (intro failed) (auto simp: textLlmResponded_def)
      next
        case False
        let ?u = "conversation s @ [\<lparr>role = Assistant, content = m, timestamp = now\<rparr>]"
        show ?thesis
        proof (cases "c_ttsEnabled c \<and> \<not> c_isMuted c")
          case True
          obtain s1 a1 where 1: "ttsSpeak m (s\<lparr>conversation := ?u\<rparr>) = (s1, a1)"
            by (cases "ttsSpeak m (s\<lparr>conversation := ?u\<rparr>)")
          from Json Some False True 1 assms
          have r: "s' = s1\<lparr>currentTranscript := []\<rparr>"
            by (auto simp: textLlmResponded_def Let_def)
          with ttsSpeak_plain[OF 1] show ?thesis
            by (auto simp: queueEmpty_def)
        next
          case notts: False
          from Json Some False notts assms show ?thesis
            by (auto simp: textLlmResponded_def Let_def queueEmpty_def)
        qed
      qed
    qed
  qed
qed

lemma startListening_plain:
  "startListening c h s = (s', as) \<Longrightarrow> ttsRef s' = ttsRef s \<and> isProcessingRef s' = isProcessingRef s"
  by (auto simp: startListening_def Let_def split: if_splits)

lemma finishWithoutSpeech_plain:
  "finishWithoutSpeech c h s = (s', as) \<Longrightarrow> ttsRef s' = ttsRef s \<and> \<not> isProcessingRef s'"
proof -
  assume a: "finishWithoutSpeech c h s = (s', as)"
  obtain s1 a1 where 1: "startListening c h (s\<lparr>voiceState := Listening\<rparr>) = (s1, a1)"
    by (cases "startListening c h (s\<lparr>voiceState := Listening\<rparr>)")
  from startListening_plain[OF 1] a 1 show ?thesis
    by (auto simp: finishWithoutSpeech_def Let_def split: if_splits)
qed

lemma processQueue_empty: "queue t = [] \<Longrightarrow> processQueue t = (t, [])"
  by (simp add: processQueue_def)

lemma utteranceEnded_plain:
  "queueEmpty s \<Longrightarrow> speaking s \<Longrightarrow>
     \<not> speaking (fst (utteranceEnded c s)) \<and> queueEmpty (fst (utteranceEnded c s))
     \<and> \<not> isProcessingRef (fst (utteranceEnded c s))"
  by (auto simp: utteranceEnded_def queueEmpty_def speaking_def processQueue_empty Let_def
      split: option.splits)

lemma utteranceFailed_plain:
  "queueEmpty s \<Longrightarrow> speaking s \<Longrightarrow>
     \<not> speaking (fst (utteranceFailed s)) \<and> queueEmpty (fst (utteranceFailed s))
     \<and> \<not> isProcessingRef (fst (utteranceFailed s))"
  by (auto simp: utteranceFailed_def queueEmpty_def speaking_def processQueue_empty Let_def
      split: option.splits)

lemma utteranceStarted_plain:
  "speaking (fst (utteranceStarted s)) = speaking s
   \<and> queueEmpty (fst (utteranceStarted s)) = queueEmpty s
   \<and> isProcessingRef (fst (utteranceStarted s)) = isProcessingRef s"
  by (auto simp: utteranceStarted_def queueEmpty_def speaking_def split: option.splits)

lemma covered_I:
  "queueEmpty (component w) \<Longrightarrow>
   length (awaiting w) + finishTimers w + (if speaking (component w) then 1 else 0) \<le> 1 \<Longrightarrow>
   (0 < length (awaiting w) + finishTimers w + (if speaking (component w) then 1 else 0)
      \<longrightarrow> isProcessingRef (component w)) \<Longrightarrow> covered w"
  by (simp add: covered_def inFlight_def)

lemma occur_trigger:
  assumes "covered w"
  shows "covered (occur (Trigger t) w)"
proof (cases "isProcessingRef (component w)")
  case True
  from fire_guarded[OF True, of t] have "occur (Trigger t) w = w"
    by (simp add: occur_def)
  with assms show ?thesis by simp
next
  case False
  note idle = covered_idle[OF assms False]
  from assms have q: "queueEmpty (component w)" by (simp add: covered_def)
  from fire_begins[OF False, of t] show ?thesis
  proof
    assume "fire t (component w) = (component w, [])"
    then have "occur (Trigger t) w = w" by (simp add: occur_def)
    with assms show ?thesis by simp
  next
    assume "\<exists>s' as r. fire t (component w) = (s', as) \<and> isProcessingRef s'
             \<and> ttsRef s' = ttsRef (component w) \<and> requestsOf LlmRequestText as = [r]
             \<and> length (requests as) = 1"
    then obtain s' as r where f: "fire t (component w) = (s', as)" "isProcessingRef s'"
        "ttsRef s' = ttsRef (component w)" "requestsOf LlmRequestText as = [r]" by blast
    from f idle have o: "occur (Trigger t) w = w\<lparr>component := s', awaiting := [r]\<rparr>"
      by (simp add: occur_def)
    from same_tts[OF f(3)] idle q f(2) show ?thesis
      unfolding o by (intro covered_I) simp_all
  qed
qed

lemma occur_stt:
  assumes "covered w"
  shows "covered (occur (SttAnswer c now resp) w)"
proof (cases "SttRequest \<in> set (awaiting w)")
  case False
  with assms show ?thesis by (simp add: occur_def)
next
  case True
  note a = covered_awaiting[OF assms True]
  obtain s' as where r: "sttResponded c now resp (component w) = (s', as)"
    by (cases "sttResponded c now resp (component w)")
  from r True a(1)
  have o: "occur (SttAnswer c now resp) w
             = w\<lparr>component := s', awaiting := requestsOf LlmRequestVoice as\<rparr>"
    by (simp add: occur_def)
  from sttResponded_cases[OF r, of LlmRequestVoice] show ?thesis
  proof
    assume "\<not> isProcessingRef s' \<and> requestsOf LlmRequestVoice as = []
        \<and> (speaking s' \<longrightarrow> speaking (component w)) \<and> (queueEmpty (component w) \<longrightarrow> queueEmpty s')"
    with a show ?thesis unfolding o by (intro covered_I) auto
  next
    assume "isProcessingRef s' = isProcessingRef (component w) \<and> ttsRef s' = ttsRef (component w)
        \<and> requestsOf LlmRequestVoice as = [LlmRequestVoice]"
    with a same_tts[of s' "component w"] show ?thesis unfolding o by (intro covered_I) auto
  qed
qed

lemma occur_llm_voice:
  assumes "covered w"
  shows "covered (occur (LlmAnswerVoice c now resp) w)"
proof (cases "LlmRequestVoice \<in> set (awaiting w)")
  case False
  with assms show ?thesis by (simp add: occur_def)
next
  case True
  note a = covered_awaiting[OF assms True]
  obtain s' as where r: "llmResponded c now resp (component w) = (s', as)"
    by (cases "llmResponded c now resp (component w)")
  from r True a(1,2)
  have o: "occur (LlmAnswerVoice c now resp) w
             = w\<lparr>component := s', awaiting := [], finishTimers := timersOf as\<rparr>"
    by (simp add: occur_def)
  from llmResponded_cases[OF r] a same_tts[of s' "component w"] show ?thesis
    unfolding o by (intro covered_I) auto
qed

lemma occur_llm_text:
  assumes "covered w"
  shows "covered (occur (LlmAnswerText c now resp) w)"
proof (cases "LlmRequestText \<in> set (awaiting w)")
  case False
  with assms show ?thesis by (simp add: occur_def)
next
  case True
  note a = covered_awaiting[OF assms True]
  obtain s' as where r: "textLlmResponded c now resp (component w) = (s', as)"
    by (cases "textLlmResponded c now resp (component w)")
  from r True a(1)
  have o: "occur (LlmAnswerText c now resp) w = w\<lparr>component := s', awaiting := []\<rparr>"
    by (simp add: occur_def)
  from textLlmResponded_cases[OF r] a same_tts[of s' "component w"] show ?thesis
    unfolding o by (intro covered_I) auto
qed

lemma covered_speaking:
  assumes "covered w" "speaking (component w)"
  shows "awaiting w = []" "finishTimers w = 0" "isProcessingRef (component w)"
    "queueEmpty (component w)"
  using assms by (auto simp: covered_def inFlight_def)

lemma occur_speech:
  assumes "covered w"
  shows "covered (occur SpeechStart w)" "covered (occur (SpeechEnd c) w)"
    "covered (occur SpeechError w)"
proof -
  show "covered (occur SpeechStart w)"
  proof (cases "speaking (component w)")
    case False with assms show ?thesis by (simp add: occur_def)
  next
    case True
    from covered_speaking[OF assms True] True utteranceStarted_plain[of "component w"]
    show ?thesis by (simp add: occur_def) (intro covered_I, simp_all)
  qed
  show "covered (occur (SpeechEnd c) w)"
  proof (cases "speaking (component w)")
    case False with assms show ?thesis by (simp add: occur_def)
  next
    case True
    note s = covered_speaking[OF assms True]
    from s utteranceEnded_plain[OF s(4) True, of c]
    show ?thesis using True by (simp add: occur_def) (intro covered_I, simp_all)
  qed
  show "covered (occur SpeechError w)"
  proof (cases "speaking (component w)")
    case False with assms show ?thesis by (simp add: occur_def)
  next
    case True
    note s = covered_speaking[OF assms True]
    from s utteranceFailed_plain[OF s(4) True]
    show ?thesis using True by (simp add: occur_def) (intro covered_I, simp_all)
  qed
qed

lemma occur_finish:
  assumes "covered w"
  shows "covered (occur (FinishTimer c h) w)"
proof (cases "0 < finishTimers w")
  case False with assms show ?thesis by (simp add: occur_def)
next
  case True
  with assms have a: "finishTimers w = 1" "awaiting w = []" "\<not> speaking (component w)"
    "queueEmpty (component w)"
    by (cases "awaiting w"; auto simp: covered_def inFlight_def split: if_splits)+
  obtain s' as where r: "finishWithoutSpeech c h (component w) = (s', as)"
    by (cases "finishWithoutSpeech c h (component w)")
  from finishWithoutSpeech_plain[OF r] same_tts[of s' "component w"] a r True
  show ?thesis by (simp add: occur_def) (intro covered_I, simp_all)
qed

lemma occur_restart:
  assumes "covered w"
  shows "covered (occur (RestartTimer c h) w)"
proof -
  obtain s' as where r: "restartListening c h (component w) = (s', as)"
    by (cases "restartListening c h (component w)")
  then have "ttsRef s' = ttsRef (component w)" "isProcessingRef s' = isProcessingRef (component w)"
    using startListening_plain[of c h "(component w)\<lparr>voiceState := Listening\<rparr>" s' as]
    by (auto simp: restartListening_def)
  with same_tts[of s' "component w"] assms r show ?thesis
    by (simp add: occur_def covered_def inFlight_def)
qed

lemma occur_covered:
  assumes "covered w" "e \<noteq> StopRequest"
  shows "covered (occur e w)"
  using assms occur_trigger occur_stt occur_llm_voice occur_llm_text occur_speech occur_finish
    occur_restart
  by (cases e) auto

lemma hasStop_Cons: "hasStop (e # es) \<longleftrightarrow> e = StopRequest \<or> hasStop es"
  by (auto simp: hasStop_def)

lemma timeline_covered: "covered w \<Longrightarrow> \<not> hasStop es \<Longrightarrow> covered (timeline es w)"
  by (induction es arbitrary: w) (auto simp: hasStop_Cons occur_covered)

lemma settled_covered: "settled w \<Longrightarrow> covered w"
  by (simp add: settled_def covered_def inFlight_def)

lemma timeline_one_cycle:
  "settled w \<Longrightarrow> \<not> hasStop es \<Longrightarrow> inFlight (timeline es w) \<le> 1"
  using timeline_covered[OF settled_covered] by (simp add: covered_def)

text \<open>The example states evaluated.\<close>

lemma settled_world0: "settled world0"
  by (simp add: settled_def world0_def listening_state_def speaking_def queueEmpty_def)

lemmas demo_defs = listening_state_def demo_closure_def scenario_start_def
  handleSilenceDetected_def currentAudioBlob_def getCurrentAudioBlob_def
  clearListeningTimeout_def recorderStop_def stopRecording_def mediaRecorder_stop_def Let_def

lemma busy_flag: "isProcessingRef busy_state"
  by (simp add: busy_state_def demo_defs)

lemma demo_once: "fst (snd (fire_all demo_triggers (listening_state 3000))) = 1"
  by (simp add: demo_triggers_def fire_def listeningTimeout_def handleTextSubmit_def demo_defs)

subsection \<open>The claims about the component\<close>

text \<open>
  C8 (idempotent teardown). \<open>stopRecording\<close> returns normally from every state of the
  recorder, and a second call on the state it leaves returns normally too, makes no release
  call and changes no field. \<open>handleStop\<close> returns normally from every state of the
  component, and a second call on the state it leaves returns normally, changes nothing,
  and makes no release call (no timer cleared, nothing released by the recorder).
\<close>

theorem idempotent_teardown:
  "(\<exists>r' out. stopRecording r = Inr (r', out) \<and> stopRecording r' = Inr (r', []))
   \<and> (\<exists>s' as as'. handleStop s = Inr (s', as) \<and> handleStop s' = Inr (s', as') \<and> releases as' = [])"
  using stopRecording_twice handleStop_twice by blast

text \<open>
  C5 as stated fails. The silence callback begins a cycle and sends the transcription
  request; a stop request clears \<open>isProcessingRef\<close> while that request is pending; a text
  submit then finds the flag clear and sends a request to the response service. Two cycles
  are in flight.
\<close>

theorem reentrancy_guard_counterexample:
  "settled world0
   \<and> awaiting (timeline stop_timeline world0) = [SttRequest, LlmRequestText]
   \<and> inFlight (timeline stop_timeline world0) = 2"
proof -
  have "awaiting (timeline stop_timeline world0) = [SttRequest, LlmRequestText]
      \<and> inFlight (timeline stop_timeline world0) = 2"
    by code_simp
  with settled_world0 show ?thesis by simp
qed

text \<open>
  C5, amended (re-entrancy guard). While \<open>isProcessingRef\<close> is set, each of the three
  triggers (the silence callback, the safety timer, a text submit) leaves the component as
  it is and does nothing to the outside, and so does any sequence of them. From any state, a
  sequence of triggers takes the transition into a processing cycle at most once and sends
  at most one request to the services. And on every timeline without a stop request (the
  triggers, the answers of the two services, the events of the utterance, the timers), begun
  with nothing outstanding, at most one processing cycle is in flight; every prefix of a
  timeline is a timeline, so this holds at every point of it.
\<close>

theorem reentrancy_guard:
  "(isProcessingRef s \<longrightarrow> fire t s = (s, []) \<and> fire_all ts s = (s, 0, []))
   \<and> fst (snd (fire_all ts s)) \<le> 1
   \<and> length (requests (snd (snd (fire_all ts s)))) \<le> 1
   \<and> (settled w \<and> \<not> hasStop es \<longrightarrow> inFlight (timeline es w) \<le> 1)"
  using fire_guarded[of s t] fire_all_guarded[of s ts] fire_all_once[of ts s]
    fire_all_requests[of ts s] timeline_one_cycle[of w es]
  by blast

text \<open>
  The theorem at a component that has begun a cycle on a capture of 3000 bytes; at the
  listening component, where the same three triggers begin exactly one cycle; and on a
  timeline where a voice cycle runs to the end of its speech before a text cycle begins.
\<close>

theorem reentrancy_guard_witness:
  "isProcessingRef busy_state
   \<and> fire (SafetyTimer demo_closure) busy_state = (busy_state, [])
   \<and> fire_all demo_triggers busy_state = (busy_state, 0, [])
   \<and> fst (snd (fire_all demo_triggers (listening_state 3000))) = 1
   \<and> length (requests (snd (snd (fire_all demo_triggers (listening_state 3000))))) \<le> 1
   \<and> settled world0 \<and> \<not> hasStop demo_timeline
   \<and> inFlight (timeline demo_timeline world0) \<le> 1"
proof -
  have h: "\<not> hasStop demo_timeline"
    by (simp add: hasStop_def demo_timeline_def)
  from reentrancy_guard[of busy_state "SafetyTimer demo_closure" demo_triggers world0 demo_timeline]
    reentrancy_guard[of "listening_state 3000" "SafetyTimer demo_closure" demo_triggers world0 demo_timeline]
    busy_flag demo_once settled_world0 h
  show ?thesis by simp
qed

text \<open>
  C6 (undersized capture). When the component has no recorder, or the recorder has no
  buffered audio, or the buffered audio is shorter than 2000 bytes, the silence callback and
  the safety timer return the component unchanged (so the guard flag and \<open>voiceState\<close>
  are as before, \<open>listening\<close> if that is what it was) and do nothing to the outside:
  no request to either service.
\<close>

theorem undersized_capture_discarded:
  assumes "case audioRecorderRef s of None \<Rightarrow> True
           | Some r \<Rightarrow> (case fst (getCurrentAudioBlob r) of None \<Rightarrow> True | Some b \<Rightarrow> length b < 2000)"
  shows "handleSilenceDetected c s = (s, []) \<and> listeningTimeout c s = (s, [])"
  using assms
  by (auto simp: handleSilenceDetected_def listeningTimeout_def currentAudioBlob_def
        getCurrentAudioBlob_def Let_def split: option.splits if_splits)

text \<open>Scenario C: a capture of 1500 bytes while listening.\<close>

theorem undersized_capture_discarded_witness:
  "(case audioRecorderRef (listening_state 1500) of None \<Rightarrow> True
    | Some r \<Rightarrow> (case fst (getCurrentAudioBlob r) of None \<Rightarrow> True | Some b \<Rightarrow> length b < 2000))
   \<and> handleSilenceDetected demo_closure (listening_state 1500) = (listening_state 1500, [])
   \<and> listeningTimeout demo_closure (listening_state 1500) = (listening_state 1500, [])
   \<and> voiceState (listening_state 1500) = Listening"
proof -
  have h: "case audioRecorderRef (listening_state 1500) of None \<Rightarrow> True
    | Some r \<Rightarrow> (case fst (getCurrentAudioBlob r) of None \<Rightarrow> True | Some b \<Rightarrow> length b < 2000)"
    by (simp add: listening_state_def getCurrentAudioBlob_def)
  from undersized_capture_discarded[OF h, of demo_closure] h show ?thesis
    by (simp add: listening_state_def)
qed

text \<open>
  C7 (stop phrase). When the transcription service answers with success and a text that
  contains one of the whole words stop, exit, quit, end, goodbye in any case, the handler
  leaves the component idle and inactive with the guard flag clear and no safety timer (a
  timer that was armed is cleared), its recorder stopped, its speech playback cancelled,
  and it makes no request to the response service.
\<close>

theorem stop_phrase_handling:
  assumes "containsStopWord t" "stt_success d" "stt_text d = Some t"
  shows "voiceState (fst (sttResponded c now (Json d) s)) = Idle
     \<and> \<not> isActive (fst (sttResponded c now (Json d) s))
     \<and> \<not> isProcessingRef (fst (sttResponded c now (Json d) s))
     \<and> listeningTimeoutRef (fst (sttResponded c now (Json d) s)) = None
     \<and> (case audioRecorderRef (fst (sttResponded c now (Json d) s)) of None \<Rightarrow> True
         | Some r \<Rightarrow> \<not> isRecording r \<and> volumeCheckInterval r = None \<and> stream r = None
                     \<and> audioContext r = None \<and> mediaRecorder r \<noteq> Some Recording)
     \<and> (case ttsRef (fst (sttResponded c now (Json d) s)) of None \<Rightarrow> True
         | Some x \<Rightarrow> \<not> isSpeaking x \<and> queue x = [] \<and> currentUtterance x = None)
     \<and> (case listeningTimeoutRef s of None \<Rightarrow> True
         | Some h \<Rightarrow> ClearListeningTimeout h \<in> set (snd (sttResponded c now (Json d) s)))
     \<and> (case ttsRef s of None \<Rightarrow> True
         | Some x \<Rightarrow> SynthesisCancel \<in> set (snd (sttResponded c now (Json d) s)))
     \<and> llmRequests (snd (sttResponded c now (Json d) s)) = []"
proof -
  let ?s1 = "s\<lparr>currentTranscript := trim t, textInput := trim t\<rparr>"
  from assms(1) have m: "matchStop (toLowerCase (trim t))" by (simp add: matchStop_refines)
  from handleStop_effect[of ?s1] obtain s' as where
    h: "handleStop ?s1 = Inr (s', as)"
     "voiceState s' = Idle \<and> \<not> isActive s' \<and> \<not> isProcessingRef s' \<and> listeningTimeoutRef s' = None
     \<and> (case audioRecorderRef s' of None \<Rightarrow> True
         | Some r \<Rightarrow> \<not> isRecording r \<and> volumeCheckInterval r = None \<and> stream r = None
                     \<and> audioContext r = None \<and> mediaRecorder r \<noteq> Some Recording)
     \<and> (case ttsRef s' of None \<Rightarrow> True
         | Some x \<Rightarrow> \<not> isSpeaking x \<and> queue x = [] \<and> currentUtterance x = None)
     \<and> (case listeningTimeoutRef ?s1 of None \<Rightarrow> True | Some h \<Rightarrow> ClearListeningTimeout h \<in> set as)
     \<and> (case ttsRef ?s1 of None \<Rightarrow> True | Some x \<Rightarrow> SynthesisCancel \<in> set as)
     \<and> llmRequests as = []"
    by blast
  from assms m containsStopWord_nonempty[OF assms(1)] h(1)
  have "sttResponded c now (Json d) s = (s', as)"
    by (simp add: sttResponded_def Let_def)
  with h(2) show ?thesis by (auto split: option.splits)
qed

text \<open>Scenario D: the transcription "please stop now" arrives during a processing cycle.\<close>

theorem stop_phrase_handling_witness:
  "containsStopWord ''please stop now'' \<and> stt_success stop_reply
   \<and> stt_text stop_reply = Some ''please stop now''
   \<and> voiceState (fst (sttResponded demo_closure ''12:00'' (Json stop_reply) busy_state)) = Idle
   \<and> llmRequests (snd (sttResponded demo_closure ''12:00'' (Json stop_reply) busy_state)) = []"
proof -
  have h: "containsStopWord ''please stop now''" by code_simp
  have d: "stt_success stop_reply" "stt_text stop_reply = Some ''please stop now''"
    by (simp_all add: stop_reply_def)
  from stop_phrase_handling[OF h d, of demo_closure "''12:00''" busy_state]
  have "voiceState (fst (sttResponded demo_closure ''12:00'' (Json stop_reply) busy_state)) = Idle"
    "llmRequests (snd (sttResponded demo_closure ''12:00'' (Json stop_reply) busy_state)) = []"
    by blast+
  with h d show ?thesis by blast
qed

end
